theory Spec2Isabelle
  imports Main "HOL-Library.AList"
begin

section \<open>Python primitives used by the assemblers\<close>

text \<open>
  Strings are \<open>string\<close> (lists of characters), Python integers are \<open>int\<close>.
  The only exceptions the modelled code can raise are index and key errors.
\<close>

datatype py_error = IndexError | KeyError

text \<open>
  A slice bound \<open>i\<close> against a sequence of length \<open>n\<close>: a negative bound counts from
  the end and stops at 0, a non-negative one stops at \<open>n\<close>. Slicing never raises.
\<close>

definition py_bound :: "nat \<Rightarrow> int \<Rightarrow> nat" where
  "py_bound n i = (if i < 0 then nat (int n + i) else min (nat i) n)"

text \<open>\<^verbatim>\<open>s[a:b]\<close>, \<^verbatim>\<open>s[a:]\<close> and \<^verbatim>\<open>s[:b]\<close>.\<close>

definition py_slice :: "'a list \<Rightarrow> int \<Rightarrow> int \<Rightarrow> 'a list" where
  "py_slice s a b =
     (let lo = py_bound (length s) a; hi = py_bound (length s) b
      in take (hi - lo) (drop lo s))"

definition py_slice_from :: "'a list \<Rightarrow> int \<Rightarrow> 'a list" where
  "py_slice_from s a = drop (py_bound (length s) a) s"

definition py_slice_to :: "'a list \<Rightarrow> int \<Rightarrow> 'a list" where
  "py_slice_to s b = take (py_bound (length s) b) s"

text \<open>\<^verbatim>\<open>range(n)\<close> and \<^verbatim>\<open>range(a, b, step)\<close> for a positive step.\<close>

definition py_range :: "int \<Rightarrow> int list" where
  "py_range n = map int [0 ..< nat n]"

definition py_range3 :: "int \<Rightarrow> int \<Rightarrow> int \<Rightarrow> int list" where
  "py_range3 a b step =
     map (\<lambda>n. a + int n * step) [0 ..< nat ((b - a + step - 1) div step)]"

text \<open>
  A \<^verbatim>\<open>defaultdict\<close> is an insertion-ordered association list with a default.
  Reading a missing key stores the default under that key, at the end.
\<close>

definition dd_get :: "'v \<Rightarrow> ('k \<times> 'v) list \<Rightarrow> 'k \<Rightarrow> 'v \<times> ('k \<times> 'v) list" where
  "dd_get dflt d key =
     (case map_of d key of
        Some v \<Rightarrow> (v, d)
      | None \<Rightarrow> (dflt, d @ [(key, dflt)]))"

text \<open>The value a \<^verbatim>\<open>defaultdict\<close> would return for a key, without the side effect.\<close>

definition dd_peek :: "'v \<Rightarrow> ('k \<times> 'v) list \<Rightarrow> 'k \<Rightarrow> 'v" where
  "dd_peek dflt d key = (case map_of d key of Some v \<Rightarrow> v | None \<Rightarrow> dflt)"

section \<open>The de Bruijn graph assembler (dbg\_assembler.py)\<close>

text \<open>A read is the tuple (header, sequence, quality) that \<^verbatim>\<open>read_fastq\<close> returns.\<close>

type_synonym read = "string \<times> string \<times> int list"

record DBGAssembler =
  dbg_k :: int
  dbg_graph :: "(string \<times> string list) list"
  dbg_in_degree :: "(string \<times> int) list"
  dbg_out_degree :: "(string \<times> int) list"

text \<open>\<^verbatim>\<open>DBGAssembler.__init__\<close>: stores \<open>k\<close> and three empty dictionaries; it raises nothing.\<close>

definition fresh_dbg :: "int \<Rightarrow> DBGAssembler" where
  "fresh_dbg kk = \<lparr>dbg_k = kk, dbg_graph = [], dbg_in_degree = [], dbg_out_degree = []\<rparr>"

definition DBGAssembler_init :: "int \<Rightarrow> py_error + DBGAssembler" where
  "DBGAssembler_init kk = Inr (fresh_dbg kk)"

text \<open>
  The body of the inner loop of \<^verbatim>\<open>build_graph\<close> for one window \<open>kmer\<close>.
  \<^verbatim>\<open>self.graph[prefix]\<close> is read before the membership test, so the key \<open>prefix\<close>
  is created even when the edge is already there.
\<close>

definition add_kmer :: "DBGAssembler \<Rightarrow> string \<Rightarrow> DBGAssembler" where
  "add_kmer st kmer =
     (if list_ex (\<lambda>c. c \<notin> set ''ACGT'') kmer then st
      else
        let prefix = py_slice_to kmer (- 1);
            suffix = py_slice_from kmer 1;
            (adj, g1) = dd_get [] (dbg_graph st) prefix
        in if suffix \<in> set adj then st\<lparr>dbg_graph := g1\<rparr>
           else
             let g2 = AList.update prefix (adj @ [suffix]) g1;
                 (od, out1) = dd_get 0 (dbg_out_degree st) prefix;
                 out2 = AList.update prefix (od + 1) out1;
                 (idg, in1) = dd_get 0 (dbg_in_degree st) suffix;
                 in2 = AList.update suffix (idg + 1) in1
             in st\<lparr>dbg_graph := g2, dbg_out_degree := out2, dbg_in_degree := in2\<rparr>)"

text \<open>The windows \<^verbatim>\<open>seq[i:i+k]\<close> of one read, in order; none when the read is shorter than \<open>k\<close>.\<close>

definition windows :: "int \<Rightarrow> string \<Rightarrow> string list" where
  "windows kk seq =
     (if int (length seq) < kk then []
      else map (\<lambda>i. py_slice seq i (i + kk)) (py_range (int (length seq) - kk + 1)))"

definition build_graph :: "DBGAssembler \<Rightarrow> read list \<Rightarrow> DBGAssembler" where
  "build_graph st reads =
     foldl (\<lambda>s (_, seq, _). foldl add_kmer s (windows (dbg_k st) seq)) st reads"

text \<open>
  First loop of \<^verbatim>\<open>find_contigs\<close>: the start nodes. Reading the two degree
  dictionaries stores a zero for a missing key; \<^verbatim>\<open>and\<close> and \<^verbatim>\<open>or\<close> are short-circuit.
\<close>

fun select_starts :: "string list \<Rightarrow> DBGAssembler \<Rightarrow> string list \<times> DBGAssembler" where
  "select_starts [] st = ([], st)"
| "select_starts (node # ns) st =
     (let (od, out1) = dd_get 0 (dbg_out_degree st) node;
          st1 = st\<lparr>dbg_out_degree := out1\<rparr>
      in if od > 0 then
           (let (idg, in1) = dd_get 0 (dbg_in_degree st1) node;
                st2 = st1\<lparr>dbg_in_degree := in1\<rparr>
            in if (if idg = od then idg = 0 else True)
               then (let (r, st3) = select_starts ns st2 in (node # r, st3))
               else select_starts ns st2)
         else select_starts ns st1)"

text \<open>Second loop: the first node with an outgoing edge, when the first loop found none.\<close>

fun first_with_out :: "string list \<Rightarrow> DBGAssembler \<Rightarrow> string list \<times> DBGAssembler" where
  "first_with_out [] st = ([], st)"
| "first_with_out (node # ns) st =
     (let (od, out1) = dd_get 0 (dbg_out_degree st) node;
          st1 = st\<lparr>dbg_out_degree := out1\<rparr>
      in if od > 0 then ([node], st1) else first_with_out ns st1)"

text \<open>All successors recorded in an adjacency dictionary.\<close>

definition succs :: "(string \<times> string list) list \<Rightarrow> string set" where
  "succs g = (\<Union>(n, adj) \<in> set g. set adj)"

text \<open>
  The \<^verbatim>\<open>while True\<close> loop of \<^verbatim>\<open>find_contigs\<close>. \<^verbatim>\<open>self.graph[current]\<close> on the
  \<^verbatim>\<open>defaultdict\<close> creates the key \<open>current\<close> when it is missing;
  \<^verbatim>\<open>next_node[-1]\<close> raises on an empty node.
\<close>

function walk ::
  "DBGAssembler \<Rightarrow> string \<Rightarrow> string list \<Rightarrow> string set
     \<Rightarrow> py_error + (string list \<times> string set \<times> DBGAssembler)" where
  "walk st current path visited =
     (let visited1 = insert current visited;
          r = dd_get [] (dbg_graph st) current;
          next_nodes = fst r;
          st1 = st\<lparr>dbg_graph := snd r\<rparr>
      in case next_nodes of
           [next_node] \<Rightarrow>
             (let q = dd_get 0 (dbg_in_degree st1) next_node;
                  st2 = st1\<lparr>dbg_in_degree := snd q\<rparr>
              in if fst q = 1 then
                   (if next_node \<notin> visited1 then
                      (if next_node = [] then Inl IndexError
                       else walk st2 next_node (path @ [[last next_node]]) visited1)
                    else Inr (path, visited1, st2))
                 else Inr (path, visited1, st2))
         | _ \<Rightarrow> Inr (path, visited1, st1))"
  by pat_completeness auto

lemma succs_dd_get [simp]: "succs (snd (dd_get [] g key)) = succs g"
  by (auto simp: dd_get_def succs_def split: option.splits)

lemma dd_get_in_succs: "fst (dd_get [] g key) = [n] \<Longrightarrow> n \<in> succs g"
  by (force simp: dd_get_def succs_def split: option.splits dest!: map_of_SomeD)

lemma finite_succs [simp]: "finite (succs g)"
  by (auto simp: succs_def)

termination walk
  apply (relation "measure (\<lambda>(st, current, path, visited).
          card (succs (dbg_graph st) - visited)
          + card (succs (dbg_graph st) - insert current visited))")
   apply simp
  apply simp
  apply (rule psubset_card_mono)
   apply simp
  apply (frule dd_get_in_succs [OF sym])
  apply blast
  done

declare walk.simps [simp del]

text \<open>
  \<^verbatim>\<open>path[0] + ''.join(path[1:])\<close>; the path always holds its start node.
\<close>

definition path_to_contig :: "string list \<Rightarrow> py_error + string" where
  "path_to_contig path =
     (case path of [] \<Rightarrow> Inl IndexError | p # ps \<Rightarrow> Inr (p @ concat ps))"

text \<open>The \<^verbatim>\<open>for start in start_nodes\<close> loop of \<^verbatim>\<open>find_contigs\<close>.\<close>

fun extract_contigs ::
  "string list \<Rightarrow> string list \<Rightarrow> string set \<Rightarrow> DBGAssembler
     \<Rightarrow> py_error + (string list \<times> DBGAssembler)" where
  "extract_contigs [] contigs visited st = Inr (contigs, st)"
| "extract_contigs (start # ss) contigs visited st =
     (if start \<in> visited then extract_contigs ss contigs visited st
      else
        case walk st start [start] visited of
          Inl e \<Rightarrow> Inl e
        | Inr (path, visited1, st1) \<Rightarrow>
            (case path_to_contig path of
               Inl e \<Rightarrow> Inl e
             | Inr contig \<Rightarrow>
                 extract_contigs ss
                   (if int (length contig) \<ge> dbg_k st1 then contigs @ [contig] else contigs)
                   visited1 st1))"

text \<open>
  \<^verbatim>\<open>find_contigs\<close>: the contigs and the assembler as the call leaves it (the
  dictionaries are instance state, and reading them can add keys).
\<close>

definition find_contigs :: "DBGAssembler \<Rightarrow> py_error + (string list \<times> DBGAssembler)" where
  "find_contigs st =
     (let nodes = map fst (dbg_graph st);
          (start_nodes, st1) = select_starts nodes st;
          (start_nodes2, st2) =
             (if start_nodes = [] then first_with_out nodes st1 else (start_nodes, st1))
      in extract_contigs start_nodes2 [] {} st2)"

section \<open>Graph export (graph\_utils.py)\<close>

text \<open>\<^verbatim>\<open>str\<close> of an integer, as the f-string formats it.\<close>

fun str_nat :: "nat \<Rightarrow> string" where
  "str_nat n =
     (if n < 10 then [char_of (48 + n)]
      else str_nat (n div 10) @ [char_of (48 + n mod 10)])"

definition str_int :: "int \<Rightarrow> string" where
  "str_int i = (if i < 0 then CHR ''-'' # str_nat (nat (- i)) else str_nat (nat i))"

definition tab :: char where
  "tab = char_of (9 :: nat)"

definition newline :: char where
  "newline = char_of (10 :: nat)"

definition gfa_header :: string where
  "gfa_header = ''H'' @ [tab] @ ''VN:Z:1.0'' @ [newline]"

definition gfa_segment :: "string \<Rightarrow> string" where
  "gfa_segment node = ''S'' @ [tab] @ node @ [tab] @ node @ [newline]"

text \<open>A link line with the overlap field \<open>ov\<close>; the source writes \<^verbatim>\<open>len(node)-1\<close> there.\<close>

definition gfa_link_line :: "string \<Rightarrow> string \<Rightarrow> int \<Rightarrow> string" where
  "gfa_link_line node next_node ov =
     ''L'' @ [tab] @ node @ [tab] @ ''+'' @ [tab] @ next_node @ [tab] @ ''+'' @ [tab]
       @ str_int ov @ ''M'' @ [newline]"

definition gfa_link :: "string \<Rightarrow> string \<Rightarrow> string" where
  "gfa_link node next_node = gfa_link_line node next_node (int (length node) - 1)"

text \<open>
  \<^verbatim>\<open>write_gfa\<close>: the strings written to the file, one per \<^verbatim>\<open>f.write\<close>, in order.
  The file is their concatenation.
\<close>

definition write_gfa :: "(string \<times> string list) list \<Rightarrow> string list" where
  "write_gfa g =
     [gfa_header]
     @ map (\<lambda>node. gfa_segment node) (map fst g)
     @ concat (map (\<lambda>(node, edges). map (\<lambda>next_node. gfa_link node next_node) edges) g)"

section \<open>The directed graph of the OLC assembler\<close>

text \<open>
  \<^verbatim>\<open>networkx.DiGraph\<close> as the assembler uses it: a dictionary from each node to the
  dictionary of its successors with the edge weight, both in insertion order. The
  predecessor dictionary is only read through \<^verbatim>\<open>in_degree\<close>, which is computed here
  from the successors.
\<close>

type_synonym digraph = "(string \<times> (string \<times> int) list) list"

type_synonym edge = "string \<times> string"

text \<open>
  \<^verbatim>\<open>add_edge(u, v, weight=w)\<close>: both endpoints become nodes when they are not yet,
  and the weight of an existing edge is overwritten in place.
\<close>

definition nx_add_node :: "string \<Rightarrow> digraph \<Rightarrow> digraph" where
  "nx_add_node u g = (if u \<in> set (map fst g) then g else g @ [(u, [])])"

definition nx_add_edge :: "string \<Rightarrow> string \<Rightarrow> int \<Rightarrow> digraph \<Rightarrow> digraph" where
  "nx_add_edge u v w g = AList.map_entry u (AList.update v w) (nx_add_node v (nx_add_node u g))"

definition nx_nodes :: "digraph \<Rightarrow> string list" where
  "nx_nodes g = map fst g"

definition nx_succ :: "digraph \<Rightarrow> string \<Rightarrow> (string \<times> int) list" where
  "nx_succ g n = (case map_of g n of Some adj \<Rightarrow> adj | None \<Rightarrow> [])"

definition nx_out_edges :: "digraph \<Rightarrow> string \<Rightarrow> edge list" where
  "nx_out_edges g n = map (\<lambda>(v, w). (n, v)) (nx_succ g n)"

definition nx_edges :: "digraph \<Rightarrow> edge list" where
  "nx_edges g = concat (map (\<lambda>(u, adj). map (\<lambda>(v, w). (u, v)) adj) g)"

definition nx_out_degree :: "digraph \<Rightarrow> string \<Rightarrow> int" where
  "nx_out_degree g n = int (length (nx_succ g n))"

definition nx_in_degree :: "digraph \<Rightarrow> string \<Rightarrow> int" where
  "nx_in_degree g n = int (length (filter (\<lambda>(u, adj). n \<in> set (map fst adj)) g))"

text \<open>\<^verbatim>\<open>graph[u][v]['weight']\<close>; a missing node or edge is a \<^verbatim>\<open>KeyError\<close>.\<close>

definition nx_weight :: "digraph \<Rightarrow> string \<Rightarrow> string \<Rightarrow> py_error + int" where
  "nx_weight g u v =
     (case map_of g u of
        None \<Rightarrow> Inl KeyError
      | Some adj \<Rightarrow> (case map_of adj v of None \<Rightarrow> Inl KeyError | Some w \<Rightarrow> Inr w))"

section \<open>The overlap-layout-consensus assembler (olc\_assembler\_old.py)\<close>

record OLCAssembler =
  olc_min_overlap :: int
  olc_graph :: digraph

text \<open>\<^verbatim>\<open>OLCAssembler.__init__\<close>: stores the threshold and an empty graph; it raises nothing.\<close>

definition fresh_olc :: "int \<Rightarrow> OLCAssembler" where
  "fresh_olc min_overlap = \<lparr>olc_min_overlap = min_overlap, olc_graph = []\<rparr>"

definition OLCAssembler_init :: "int \<Rightarrow> py_error + OLCAssembler" where
  "OLCAssembler_init min_overlap = Inr (fresh_olc min_overlap)"

subsection \<open>find\_overlaps\<close>

text \<open>The reads that are processed: the first \<open>max_reads\<close>.\<close>

definition working_reads :: "read list \<Rightarrow> read list" where
  "working_reads reads =
     (let read_count = int (length reads);
          max_reads = (if read_count < 500 then min read_count 2000 else 500)
      in py_slice_to reads max_reads)"

text \<open>
  \<^verbatim>\<open>np.mean(...) > 1000\<close> over the lengths of the first 100 working reads. The mean of
  no reads is \<^verbatim>\<open>nan\<close> (a warning, not an exception) and \<^verbatim>\<open>nan > 1000\<close> is false;
  otherwise the mean of the lengths exceeds 1000 exactly when their sum exceeds 1000
  times their number.
\<close>

definition is_long_read :: "read list \<Rightarrow> bool" where
  "is_long_read working =
     (let lens = map (\<lambda>(_, seq, _). int (length seq)) (py_slice_to working 100)
      in if lens = [] then False else sum_list lens > 1000 * int (length lens))"

definition effective_min_overlap :: "int \<Rightarrow> read list \<Rightarrow> int" where
  "effective_min_overlap min_overlap working =
     (if is_long_read working then min_overlap * 3 else min_overlap)"

text \<open>The test \<^verbatim>\<open>seq_i[-k:] == seq_j[:k]\<close>.\<close>

definition overlap_match :: "string \<Rightarrow> string \<Rightarrow> int \<Rightarrow> bool" where
  "overlap_match seq_i seq_j kk = (py_slice_from seq_i (- kk) = py_slice_to seq_j kk)"

text \<open>The refinement loop around a hit \<open>kk\<close> of the coarse search, starting from \<open>max_overlap = 0\<close>.\<close>

definition refine_overlap :: "int \<Rightarrow> int \<Rightarrow> string \<Rightarrow> string \<Rightarrow> int \<Rightarrow> int" where
  "refine_overlap eff step seq_i seq_j kk =
     (let start = max (kk - step) eff;
          end = min (kk + step) (min (int (length seq_i)) (int (length seq_j)))
      in foldl (\<lambda>max_overlap exact_k.
                  if overlap_match seq_i seq_j exact_k then max max_overlap exact_k
                  else max_overlap)
           0 (py_range3 start (end + 1) 1))"

text \<open>
  The search loop for one ordered pair: the first candidate that matches ends the loop
  (\<^verbatim>\<open>break\<close>); without a match \<open>max_overlap\<close> stays 0.
\<close>

definition pair_overlap :: "bool \<Rightarrow> int \<Rightarrow> string \<Rightarrow> string \<Rightarrow> int" where
  "pair_overlap is_long eff seq_i seq_j =
     (let step = (if is_long then 10 else 1)
      in case find (overlap_match seq_i seq_j)
                (py_range3 eff (min (int (length seq_i)) (int (length seq_j)) + 1) step) of
           None \<Rightarrow> 0
         | Some kk \<Rightarrow>
             if step > 1 then refine_overlap eff step seq_i seq_j kk else kk)"

text \<open>
  The double loop over the working reads: the calls of \<^verbatim>\<open>add_edge\<close> in order, each with
  the two read positions, headers and sequences and the weight.
\<close>

type_synonym overlap_event = "(nat \<times> string \<times> string) \<times> (nat \<times> string \<times> string) \<times> int"

definition overlap_events :: "int \<Rightarrow> read list \<Rightarrow> overlap_event list" where
  "overlap_events min_overlap reads =
     (let working = working_reads reads;
          is_long = is_long_read working;
          eff = effective_min_overlap min_overlap working
      in concat (map (\<lambda>(i, (header_i, seq_i, _)).
           concat (map (\<lambda>(j, (header_j, seq_j, _)).
             if i = j then []
             else
               let max_overlap = pair_overlap is_long eff seq_i seq_j
               in if max_overlap \<ge> eff
                  then [((i, header_i, seq_i), (j, header_j, seq_j), max_overlap)]
                  else [])
             (enumerate 0 working)))
           (enumerate 0 working)))"

definition add_event :: "digraph \<Rightarrow> overlap_event \<Rightarrow> digraph" where
  "add_event g ev =
     (case ev of ((i, header_i, seq_i), (j, header_j, seq_j), w) \<Rightarrow>
        nx_add_edge header_i header_j w g)"

definition find_overlaps :: "OLCAssembler \<Rightarrow> read list \<Rightarrow> OLCAssembler" where
  "find_overlaps a reads =
     a\<lparr>olc_graph := foldl add_event (olc_graph a) (overlap_events (olc_min_overlap a) reads)\<rparr>"

subsection \<open>find\_paths\<close>

text \<open>\<^verbatim>\<open>max(xs, key=f)\<close> on \<open>x # xs\<close>: the first element with the largest key.\<close>

fun py_max_key :: "('a \<Rightarrow> int) \<Rightarrow> 'a \<Rightarrow> 'a list \<Rightarrow> 'a" where
  "py_max_key f best [] = best"
| "py_max_key f best (x # xs) = py_max_key f (if f x > f best then x else best) xs"

text \<open>
  The key of the greedy choice. The edges it is applied to come from \<^verbatim>\<open>out_edges\<close>,
  whose weight lookup cannot miss (lemma \<open>nx_out_edges_weight\<close> below).
\<close>

definition edge_key :: "digraph \<Rightarrow> edge \<Rightarrow> int" where
  "edge_key g e = (case nx_weight g (fst e) (snd e) of Inr w \<Rightarrow> w | Inl _ \<Rightarrow> 0)"

text \<open>The \<^verbatim>\<open>while True\<close> loop of \<^verbatim>\<open>_build_greedy_paths\<close>.\<close>

function extend_path ::
  "digraph \<Rightarrow> string \<Rightarrow> string list \<Rightarrow> edge set \<Rightarrow> string list \<times> edge set" where
  "extend_path g current path visited_edges =
     (case filter (\<lambda>e. e \<notin> visited_edges) (nx_out_edges g current) of
        [] \<Rightarrow> (path, visited_edges)
      | e # es \<Rightarrow>
          (let next_edge = py_max_key (edge_key g) e es;
               visited1 = insert next_edge visited_edges;
               next_node = snd next_edge
           in if next_node \<in> set path then (path, visited1)
              else extend_path g next_node (path @ [next_node]) visited1))"
  by pat_completeness auto

lemma py_max_key_mem: "py_max_key f b xs \<in> set (b # xs)"
  by (induction xs arbitrary: b) auto

lemma nx_out_edges_subset: "set (nx_out_edges g n) \<subseteq> set (nx_edges g)"
proof
  fix e assume "e \<in> set (nx_out_edges g n)"
  then obtain v w where vw: "(v, w) \<in> set (nx_succ g n)" and e: "e = (n, v)"
    by (auto simp: nx_out_edges_def)
  from vw obtain adj where adj: "map_of g n = Some adj" "(v, w) \<in> set adj"
    by (cases "map_of g n") (auto simp: nx_succ_def)
  then have "(n, adj) \<in> set g" by (auto dest: map_of_SomeD)
  with adj(2) e show "e \<in> set (nx_edges g)"
    unfolding nx_edges_def by force
qed

lemma greedy_choice:
  assumes "filter (\<lambda>e. e \<notin> visited_edges) (nx_out_edges g current) = e # es"
  shows "py_max_key f e es \<in> set (nx_out_edges g current) - visited_edges"
proof -
  have "py_max_key f e es \<in> set (filter (\<lambda>e. e \<notin> visited_edges) (nx_out_edges g current))"
    using py_max_key_mem [of f e es] assms by simp
  then show ?thesis by simp
qed

termination extend_path
  apply (relation "measure (\<lambda>(g, current, path, visited_edges).
            card (set (nx_edges g) - visited_edges))")
   apply simp
  apply simp
  apply (rule psubset_card_mono)
   apply simp
  apply (frule greedy_choice [where f = "edge_key g" for g])
  using nx_out_edges_subset apply blast
  done

declare extend_path.simps [simp del]

text \<open>
  \<^verbatim>\<open>_build_greedy_paths\<close>: the list of paths and the set of visited edges are the two
  arguments it mutates; both are returned.
\<close>

definition build_greedy_paths ::
  "digraph \<Rightarrow> string \<Rightarrow> string list list \<Rightarrow> edge set \<Rightarrow> edge option
     \<Rightarrow> string list list \<times> edge set" where
  "build_greedy_paths g start paths visited_edges start_edge =
     (let (current0, path0, visited0) =
            (case start_edge of
               None \<Rightarrow> (start, [start], visited_edges)
             | Some (u, v) \<Rightarrow>
                 if u = start then (v, [start, v], insert (u, v) visited_edges)
                 else (start, [start], visited_edges));
          (path, visited1) = extend_path g current0 path0 visited0
      in (if length path > 1 then paths @ [path] else paths, visited1))"

text \<open>The start nodes of \<^verbatim>\<open>find_paths\<close>, by the three fallbacks of the source.\<close>

definition start_nodes_of :: "digraph \<Rightarrow> string list" where
  "start_nodes_of g =
     (let s1 = filter (\<lambda>n. nx_in_degree g n = 0) (nx_nodes g) in
      if s1 \<noteq> [] then s1
      else
        let s2 = filter (\<lambda>n. nx_in_degree g n < nx_out_degree g n) (nx_nodes g) in
        if s2 \<noteq> [] then s2
        else
          let nodes_with_edges =
                map (\<lambda>n. (n, nx_out_degree g n))
                  (filter (\<lambda>n. nx_out_degree g n > 0) (nx_nodes g))
          in if nodes_with_edges \<noteq> []
             then [fst (hd (sort_key (\<lambda>x. - snd x) nodes_with_edges))]
             else take 1 (nx_nodes g))"

text \<open>The loop \<^verbatim>\<open>for start in start_nodes\<close>.\<close>

fun from_starts ::
  "digraph \<Rightarrow> string list \<Rightarrow> string list list \<Rightarrow> edge set \<Rightarrow> string list list \<times> edge set" where
  "from_starts g [] paths visited_edges = (paths, visited_edges)"
| "from_starts g (start # ss) paths visited_edges =
     (let (paths1, visited1) = build_greedy_paths g start paths visited_edges None
      in from_starts g ss paths1 visited1)"

lemma extend_path_visited_mono:
  "visited_edges \<subseteq> snd (extend_path g current path visited_edges)"
proof (induction g current path visited_edges rule: extend_path.induct)
  case (1 g current path visited_edges)
  show ?case
  proof (cases "filter (\<lambda>e. e \<notin> visited_edges) (nx_out_edges g current)")
    case Nil
    then show ?thesis by (simp add: extend_path.simps [of g current])
  next
    case (Cons e es)
    let ?ne = "py_max_key (edge_key g) e es"
    show ?thesis
    proof (cases "snd ?ne \<in> set path")
      case True
      with Cons show ?thesis by (auto simp: Let_def extend_path.simps [of g current])
    next
      case False
      from "1.IH" [OF Cons refl refl refl False]
      have "insert ?ne visited_edges
              \<subseteq> snd (extend_path g (snd ?ne) (path @ [snd ?ne]) (insert ?ne visited_edges))" .
      with Cons False show ?thesis by (auto simp: Let_def extend_path.simps [of g current])
    qed
  qed
qed

lemma build_greedy_paths_visited_mono:
  "visited_edges \<subseteq> snd (build_greedy_paths g start paths visited_edges start_edge)"
proof (cases "\<exists>v. start_edge = Some (start, v)")
  case True
  then obtain v where v: "start_edge = Some (start, v)" by blast
  show ?thesis
    using extend_path_visited_mono [of "insert (start, v) visited_edges" g v "[start, v]"]
    by (auto simp: build_greedy_paths_def v split: prod.splits)
next
  case False
  then show ?thesis
    using extend_path_visited_mono [of visited_edges g start "[start]"]
    by (auto simp: build_greedy_paths_def split: option.splits prod.splits)
qed

lemma build_greedy_paths_start_edge:
  "(u, v) \<in> snd (build_greedy_paths g u paths visited_edges (Some (u, v)))"
  using extend_path_visited_mono [of "insert (u, v) visited_edges" g v "[u, v]"]
  by (auto simp: build_greedy_paths_def split: prod.splits)

lemma leftover_decreases:
  assumes ne: "filter (\<lambda>e. e \<notin> visited_edges) (remdups (nx_edges g)) \<noteq> []"
    and e: "e = filter (\<lambda>e. e \<notin> visited_edges) (remdups (nx_edges g)) ! (i mod length (filter (\<lambda>e. e \<notin> visited_edges) (remdups (nx_edges g))))"
  shows "card (set (nx_edges g) - snd (build_greedy_paths g (fst e) paths visited_edges (Some e)))
           < card (set (nx_edges g) - visited_edges)"
proof -
  let ?un = "filter (\<lambda>e. e \<notin> visited_edges) (remdups (nx_edges g))"
  have "e \<in> set ?un" unfolding e using ne by (intro nth_mem) simp
  then have e1: "e \<in> set (nx_edges g)" "e \<notin> visited_edges" by auto
  have e2: "e \<in> snd (build_greedy_paths g (fst e) paths visited_edges (Some e))"
    using build_greedy_paths_start_edge [of "fst e" "snd e" g paths visited_edges] by simp
  show ?thesis
    using e1 e2 build_greedy_paths_visited_mono [of visited_edges g "fst e" paths "Some e"]
    by (intro psubset_card_mono) auto
qed

text \<open>
  The loop \<^verbatim>\<open>while unvisited_edges\<close>. \<^verbatim>\<open>next(iter(unvisited_edges))\<close> takes some
  element of a Python set; which one the source does not determine, so the choice is the
  parameter \<open>pick\<close>, an index into the unvisited edges listed in graph order.
\<close>

function leftover_edges ::
  "(edge list \<Rightarrow> nat) \<Rightarrow> digraph \<Rightarrow> string list list \<Rightarrow> edge set
     \<Rightarrow> string list list \<times> edge set" where
  "leftover_edges pick g paths visited_edges =
     (let unvisited_edges = filter (\<lambda>e. e \<notin> visited_edges) (remdups (nx_edges g))
      in if unvisited_edges = [] then (paths, visited_edges)
         else
           let e = unvisited_edges ! (pick unvisited_edges mod length unvisited_edges);
               r = build_greedy_paths g (fst e) paths visited_edges (Some e)
           in leftover_edges pick g (fst r) (snd r))"
  by pat_completeness auto
termination
  apply (relation "measure (\<lambda>(pick, g, paths, visited_edges).
            card (set (nx_edges g) - visited_edges))")
   apply simp
  apply (simp add: case_prod_beta leftover_decreases)
  done

declare leftover_edges.simps [simp del]

text \<open>\<^verbatim>\<open>find_paths\<close>, with the final set of visited edges beside the paths it returns.\<close>

definition find_paths_run ::
  "(edge list \<Rightarrow> nat) \<Rightarrow> digraph \<Rightarrow> string list list \<times> edge set" where
  "find_paths_run pick g =
     (if nx_nodes g = [] then ([], {})
      else
        let r = from_starts g (start_nodes_of g) [] {}
        in leftover_edges pick g (fst r) (snd r))"

definition find_paths :: "(edge list \<Rightarrow> nat) \<Rightarrow> digraph \<Rightarrow> string list list" where
  "find_paths pick g = fst (find_paths_run pick g)"

subsection \<open>generate\_consensus\<close>

text \<open>The overlap after the guard of lines 191 to 193, for a read of length \<open>n\<close>.\<close>

definition clip_overlap :: "int \<Rightarrow> int \<Rightarrow> int" where
  "clip_overlap overlap n = (if overlap \<ge> n then max 0 (n - 1) else overlap)"

text \<open>\<^verbatim>\<open>read_dict[h]\<close> on a plain dictionary.\<close>

definition dict_get :: "(string \<times> string) list \<Rightarrow> string \<Rightarrow> py_error + string" where
  "dict_get read_dict h = (case map_of read_dict h of None \<Rightarrow> Inl KeyError | Some s \<Rightarrow> Inr s)"

text \<open>The loop \<^verbatim>\<open>for i in range(1, len(path))\<close>, with \<open>prev\<close> the node \<^verbatim>\<open>path[i-1]\<close>.\<close>

fun consensus_extend ::
  "digraph \<Rightarrow> (string \<times> string) list \<Rightarrow> string \<Rightarrow> string \<Rightarrow> string list
     \<Rightarrow> py_error + string" where
  "consensus_extend g read_dict prev contig [] = Inr contig"
| "consensus_extend g read_dict prev contig (cur # rest) =
     (case nx_weight g prev cur of
        Inl e \<Rightarrow> Inl e
      | Inr overlap \<Rightarrow>
          (case dict_get read_dict cur of
             Inl e \<Rightarrow> Inl e
           | Inr s \<Rightarrow>
               consensus_extend g read_dict cur
                 (contig @ py_slice_from s (clip_overlap overlap (int (length s)))) rest))"

text \<open>The contig of one path; \<^verbatim>\<open>path[0]\<close> of an empty path raises.\<close>

definition path_consensus ::
  "digraph \<Rightarrow> (string \<times> string) list \<Rightarrow> string list \<Rightarrow> py_error + string" where
  "path_consensus g read_dict path =
     (case path of
        [] \<Rightarrow> Inl IndexError
      | [p] \<Rightarrow> dict_get read_dict p
      | p # rest \<Rightarrow>
          (case dict_get read_dict p of
             Inl e \<Rightarrow> Inl e
           | Inr contig \<Rightarrow> consensus_extend g read_dict p contig rest))"

fun consensus_paths ::
  "digraph \<Rightarrow> (string \<times> string) list \<Rightarrow> string list list \<Rightarrow> py_error + string list" where
  "consensus_paths g read_dict [] = Inr []"
| "consensus_paths g read_dict (path # ps) =
     (case path_consensus g read_dict path of
        Inl e \<Rightarrow> Inl e
      | Inr contig \<Rightarrow>
          (case consensus_paths g read_dict ps of
             Inl e \<Rightarrow> Inl e
           | Inr contigs \<Rightarrow> Inr (contig # contigs)))"

text \<open>The five longest reads, longest first, equal lengths in dictionary order.\<close>

definition longest_reads :: "(string \<times> string) list \<Rightarrow> string list" where
  "longest_reads read_dict =
     map fst (take 5 (sort_key (\<lambda>x. - snd x) (map (\<lambda>(h, s). (h, int (length s))) read_dict)))"

fun lookup_all :: "(string \<times> string) list \<Rightarrow> string list \<Rightarrow> py_error + string list" where
  "lookup_all read_dict [] = Inr []"
| "lookup_all read_dict (h # hs) =
     (case dict_get read_dict h of
        Inl e \<Rightarrow> Inl e
      | Inr s \<Rightarrow>
          (case lookup_all read_dict hs of Inl e \<Rightarrow> Inl e | Inr ss \<Rightarrow> Inr (s # ss)))"

definition generate_consensus ::
  "digraph \<Rightarrow> string list list \<Rightarrow> (string \<times> string) list \<Rightarrow> py_error + string list" where
  "generate_consensus g paths read_dict =
     (case consensus_paths g read_dict paths of
        Inl e \<Rightarrow> Inl e
      | Inr contigs \<Rightarrow>
          if contigs = [] then
            (if read_dict = [] then Inr contigs
             else lookup_all read_dict (longest_reads read_dict))
          else Inr contigs)"

subsection \<open>The in-memory part of the two assemble methods\<close>

text \<open>\<^verbatim>\<open>{header: seq for header, seq, _ in reads}\<close>.\<close>

definition make_read_dict :: "read list \<Rightarrow> (string \<times> string) list" where
  "make_read_dict reads = foldl (\<lambda>d (header, seq, _). AList.update header seq d) [] reads"

definition dbg_assemble :: "int \<Rightarrow> read list \<Rightarrow> py_error + string list" where
  "dbg_assemble kk reads =
     (case DBGAssembler_init kk of
        Inl e \<Rightarrow> Inl e
      | Inr a \<Rightarrow>
          (case find_contigs (build_graph a reads) of
             Inl e \<Rightarrow> Inl e
           | Inr (contigs, _) \<Rightarrow> Inr contigs))"

definition olc_assemble ::
  "(edge list \<Rightarrow> nat) \<Rightarrow> int \<Rightarrow> read list \<Rightarrow> py_error + string list" where
  "olc_assemble pick min_overlap reads =
     (case OLCAssembler_init min_overlap of
        Inl e \<Rightarrow> Inl e
      | Inr a \<Rightarrow>
          (let read_dict = make_read_dict reads;
               a1 = find_overlaps a reads;
               paths = find_paths pick (olc_graph a1)
           in generate_consensus (olc_graph a1) paths read_dict))"

section \<open>Notions used to state the properties\<close>

text \<open>The nodes of a de Bruijn graph: the keys of the adjacency dictionary and every successor.\<close>

definition dbg_nodes :: "(string \<times> string list) list \<Rightarrow> string set" where
  "dbg_nodes g = set (map fst g) \<union> succs g"

text \<open>The number of adjacency entries, over all keys, that are the node \<open>n\<close>.\<close>

definition in_count :: "(string \<times> string list) list \<Rightarrow> string \<Rightarrow> nat" where
  "in_count g n = sum_list (map (\<lambda>(u, adj). count_list adj n) g)"

text \<open>
  The degree counters agree with the adjacency lists: the keys of the graph are distinct,
  each out-degree is the length of the adjacency list and each in-degree the number of
  adjacency entries that are the node.
\<close>

definition deg_inv :: "DBGAssembler \<Rightarrow> bool" where
  "deg_inv st \<longleftrightarrow>
     distinct (map fst (dbg_graph st))
     \<and> (\<forall>n. dd_peek 0 (dbg_out_degree st) n = int (length (dd_peek [] (dbg_graph st) n)))
     \<and> (\<forall>n. dd_peek 0 (dbg_in_degree st) n = int (in_count (dbg_graph st) n))"

text \<open>The windows of all reads, in the order in which \<^verbatim>\<open>build_graph\<close> visits them.\<close>

definition kmers_of :: "int \<Rightarrow> read list \<Rightarrow> string list" where
  "kmers_of kk reads = concat (map (\<lambda>(_, seq, _). windows kk seq) reads)"

definition scenario_a_reads :: "read list" where
  "scenario_a_reads =
     [(''read1'', ''ACGTAC'', []), (''read2'', ''GTACTG'', []), (''read3'', ''ACTGAA'', [])]"

definition scenario_b_reads :: "read list" where
  "scenario_b_reads = [(''read0'', ''AAAACCCC'', []), (''read1'', ''CCCCGGGG'', [])]"

text \<open>Two reads where the second is wholly the overlap: the suffix AC of the first.\<close>

definition contained_reads :: "read list" where
  "contained_reads = [(''r0'', ''GGAC'', []), (''r1'', ''AC'', [])]"

text \<open>The edges of a de Bruijn graph, in the order in which \<^verbatim>\<open>write_gfa\<close> visits them.\<close>

definition dbg_edges :: "(string \<times> string list) list \<Rightarrow> (string \<times> string) list" where
  "dbg_edges g = concat (map (\<lambda>(node, edges). map (\<lambda>next_node. (node, next_node)) edges) g)"

text \<open>
  Keys are distinct, no adjacency list repeats a successor, and a successor is as long
  as its predecessor.
\<close>

definition graph_ok :: "(string \<times> string list) list \<Rightarrow> bool" where
  "graph_ok g \<longleftrightarrow>
     distinct (map fst g)
     \<and> list_all (\<lambda>(u, adj). distinct adj \<and> list_all (\<lambda>v. length v = length u) adj) g"

text \<open>Every key has length \<open>n\<close>.\<close>

definition keys_len :: "nat \<Rightarrow> (string \<times> string list) list \<Rightarrow> bool" where
  "keys_len n g \<longleftrightarrow> list_all (\<lambda>(u, adj). length u = n) g"

definition single_read :: "read list" where
  "single_read = [(''read1'', ''ACGT'', [])]"

text \<open>
  The dictionary \<open>al'\<close> is \<open>al\<close> followed by entries that all hold the default \<open>d\<close>:
  what reading missing keys of a \<^verbatim>\<open>defaultdict\<close> does to it.
\<close>

definition dd_extends :: "'v \<Rightarrow> ('k \<times> 'v) list \<Rightarrow> ('k \<times> 'v) list \<Rightarrow> bool" where
  "dd_extends d al al' \<longleftrightarrow>
     take (length al) al' = al \<and> list_all (\<lambda>(k, v). v = d) (drop (length al) al')"

text \<open>What a call may change in the assembler: default entries appended to its dictionaries.\<close>

definition frame :: "DBGAssembler \<Rightarrow> DBGAssembler \<Rightarrow> bool" where
  "frame st st' \<longleftrightarrow>
     dbg_k st' = dbg_k st
     \<and> dd_extends [] (dbg_graph st) (dbg_graph st')
     \<and> dd_extends 0 (dbg_in_degree st) (dbg_in_degree st')
     \<and> dd_extends 0 (dbg_out_degree st) (dbg_out_degree st')"

text \<open>The consecutive node pairs of a path, and of a list of paths.\<close>

definition path_pairs :: "'a list \<Rightarrow> ('a \<times> 'a) list" where
  "path_pairs p = zip p (tl p)"

definition all_path_pairs :: "'a list list \<Rightarrow> ('a \<times> 'a) list" where
  "all_path_pairs paths = concat (map path_pairs paths)"

text \<open>
  What holds of the emitted paths and the visited edges throughout \<^verbatim>\<open>find_paths\<close>: no pair
  occurs twice, every pair is a visited edge, every visited edge is an edge of the graph,
  and every emitted path has at least two nodes.
\<close>

definition paths_inv :: "digraph \<Rightarrow> string list list \<Rightarrow> edge set \<Rightarrow> bool" where
  "paths_inv g paths visited_edges \<longleftrightarrow>
     distinct (all_path_pairs paths)
     \<and> set (all_path_pairs paths) \<subseteq> visited_edges
     \<and> visited_edges \<subseteq> set (nx_edges g)
     \<and> list_all (\<lambda>p. 2 \<le> length p) paths"

text \<open>Two equal reads that overlap each other in both directions.\<close>

definition cyclic_reads :: "read list" where
  "cyclic_reads = [(''r0'', ''ACAC'', []), (''r1'', ''ACAC'', [])]"

text \<open>
  The path finder once more, with one result added that the source does not keep: the
  edges at which the cycle guard (\<^verbatim>\<open>if next_node in path: break\<close>) stopped a path, in
  order. Each function below is its untraced counterpart with that list threaded
  through; the lemmas named \<open>agree\<close> show that paths and visited edges are the same.
\<close>

function extend_path_t ::
  "digraph \<Rightarrow> string \<Rightarrow> string list \<Rightarrow> edge set \<Rightarrow> string list \<times> edge set \<times> edge list" where
  "extend_path_t g current path visited_edges =
     (case filter (\<lambda>e. e \<notin> visited_edges) (nx_out_edges g current) of
        [] \<Rightarrow> (path, visited_edges, [])
      | e # es \<Rightarrow>
          (let next_edge = py_max_key (edge_key g) e es;
               visited1 = insert next_edge visited_edges;
               next_node = snd next_edge
           in if next_node \<in> set path then (path, visited1, [next_edge])
              else extend_path_t g next_node (path @ [next_node]) visited1))"
  by pat_completeness auto
termination
  apply (relation "measure (\<lambda>(g, current, path, visited_edges).
            card (set (nx_edges g) - visited_edges))")
   apply simp
  apply simp
  apply (rule psubset_card_mono)
   apply simp
  apply (frule greedy_choice [where f = "edge_key g" for g])
  using nx_out_edges_subset apply blast
  done

declare extend_path_t.simps [simp del]

lemma extend_path_t_agree:
  "(fst (extend_path_t g current path visited_edges),
    fst (snd (extend_path_t g current path visited_edges)))
     = extend_path g current path visited_edges"
proof (induction g current path visited_edges rule: extend_path.induct)
  case (1 g current path visited_edges)
  show ?case
  proof (cases "filter (\<lambda>e. e \<notin> visited_edges) (nx_out_edges g current)")
    case Nil
    then show ?thesis
      by (simp add: extend_path.simps [of g current] extend_path_t.simps [of g current])
  next
    case (Cons e es)
    let ?ne = "py_max_key (edge_key g) e es"
    show ?thesis
    proof (cases "snd ?ne \<in> set path")
      case True
      with Cons show ?thesis
        by (simp add: extend_path.simps [of g current] extend_path_t.simps [of g current] Let_def)
    next
      case False
      from "1.IH" [OF Cons refl refl refl False] Cons False show ?thesis
        by (simp add: extend_path.simps [of g current] extend_path_t.simps [of g current] Let_def)
    qed
  qed
qed

definition build_greedy_paths_t ::
  "digraph \<Rightarrow> string \<Rightarrow> string list list \<Rightarrow> edge set \<Rightarrow> edge list \<Rightarrow> edge option
     \<Rightarrow> string list list \<times> edge set \<times> edge list" where
  "build_greedy_paths_t g start paths visited_edges stopped start_edge =
     (let (current0, path0, visited0) =
            (case start_edge of
               None \<Rightarrow> (start, [start], visited_edges)
             | Some (u, v) \<Rightarrow>
                 if u = start then (v, [start, v], insert (u, v) visited_edges)
                 else (start, [start], visited_edges));
          (path, visited1, stop) = extend_path_t g current0 path0 visited0
      in (if length path > 1 then paths @ [path] else paths, visited1, stopped @ stop))"

lemma build_greedy_paths_t_agree:
  "(fst (build_greedy_paths_t g start paths visited_edges stopped start_edge),
    fst (snd (build_greedy_paths_t g start paths visited_edges stopped start_edge)))
     = build_greedy_paths g start paths visited_edges start_edge"
proof -
  have *: "extend_path g c p v = (fst (extend_path_t g c p v), fst (snd (extend_path_t g c p v)))"
    for c p v by (simp add: extend_path_t_agree)
  show ?thesis
    unfolding build_greedy_paths_t_def build_greedy_paths_def
    by (simp add: * case_prod_beta Let_def split: option.splits)
qed

fun from_starts_t ::
  "digraph \<Rightarrow> string list \<Rightarrow> string list list \<Rightarrow> edge set \<Rightarrow> edge list
     \<Rightarrow> string list list \<times> edge set \<times> edge list" where
  "from_starts_t g [] paths visited_edges stopped = (paths, visited_edges, stopped)"
| "from_starts_t g (start # ss) paths visited_edges stopped =
     (let (paths1, visited1, stopped1) =
            build_greedy_paths_t g start paths visited_edges stopped None
      in from_starts_t g ss paths1 visited1 stopped1)"

function leftover_edges_t ::
  "(edge list \<Rightarrow> nat) \<Rightarrow> digraph \<Rightarrow> string list list \<Rightarrow> edge set \<Rightarrow> edge list
     \<Rightarrow> string list list \<times> edge set \<times> edge list" where
  "leftover_edges_t pick g paths visited_edges stopped =
     (let unvisited_edges = filter (\<lambda>e. e \<notin> visited_edges) (remdups (nx_edges g))
      in if unvisited_edges = [] then (paths, visited_edges, stopped)
         else
           let e = unvisited_edges ! (pick unvisited_edges mod length unvisited_edges);
               r = build_greedy_paths_t g (fst e) paths visited_edges stopped (Some e)
           in leftover_edges_t pick g (fst r) (fst (snd r)) (snd (snd r)))"
  by pat_completeness auto
termination
proof (relation "measure (\<lambda>(pick, g, paths, visited_edges, stopped).
            card (set (nx_edges g) - visited_edges))", goal_cases)
  case 1
  show ?case by simp
next
  case (2 pick g paths visited_edges stopped un e r)
  have "fst (snd r) = snd (build_greedy_paths g (fst e) paths visited_edges (Some e))"
    using build_greedy_paths_t_agree [of g "fst e" paths visited_edges stopped "Some e"] 2(4)
    by (metis snd_conv)
  with leftover_decreases [of visited_edges g e "pick un" paths] 2 show ?case
    by simp
qed

declare leftover_edges_t.simps [simp del]

definition find_paths_traced ::
  "(edge list \<Rightarrow> nat) \<Rightarrow> digraph \<Rightarrow> string list list \<times> edge set \<times> edge list" where
  "find_paths_traced pick g =
     (if nx_nodes g = [] then ([], {}, [])
      else
        let r = from_starts_t g (start_nodes_of g) [] {} []
        in leftover_edges_t pick g (fst r) (fst (snd r)) (snd (snd r)))"

definition guard_stopped :: "(edge list \<Rightarrow> nat) \<Rightarrow> digraph \<Rightarrow> edge list" where
  "guard_stopped pick g = snd (snd (find_paths_traced pick g))"

text \<open>
  An edge closes a cycle on a path that ends at its source: its target is a node of that
  path. The path is an emitted one, or it is the single start node and the edge a loop.
\<close>

definition closes_cycle :: "string list list \<Rightarrow> edge \<Rightarrow> bool" where
  "closes_cycle paths e \<longleftrightarrow>
     fst e = snd e \<or> list_ex (\<lambda>p. last p = fst e \<and> snd e \<in> set p) paths"

text \<open>
  What holds of the emitted paths, the visited edges and the guard's stops throughout the
  traced run: the visited edges are the emitted pairs and the stops, the two do not meet,
  no stop is twice in the list, and every stop closes a cycle.
\<close>

definition stops_inv :: "string list list \<Rightarrow> edge set \<Rightarrow> edge list \<Rightarrow> bool" where
  "stops_inv paths visited_edges stopped \<longleftrightarrow>
     visited_edges = set (all_path_pairs paths) \<union> set stopped
     \<and> distinct stopped
     \<and> set stopped \<inter> set (all_path_pairs paths) = {}
     \<and> list_all (closes_cycle paths) stopped"

text \<open>The result of one traced extension from \<open>path\<close> with \<open>visited_edges\<close>.\<close>

definition stop_ok ::
  "string list \<Rightarrow> edge set \<Rightarrow> string list \<times> edge set \<times> edge list \<Rightarrow> bool" where
  "stop_ok path visited_edges r \<longleftrightarrow>
     (case r of (p, v, st) \<Rightarrow>
        v = visited_edges \<union> set (path_pairs p) \<union> set st
        \<and> set st \<inter> (visited_edges \<union> set (path_pairs p)) = {}
        \<and> (set (path_pairs p) - set (path_pairs path)) \<inter> visited_edges = {}
        \<and> distinct st
        \<and> list_all (\<lambda>e. fst e = last p \<and> snd e \<in> set p) st
        \<and> take (length path) p = path)"

text \<open>Two reads for which a threshold of \<open>- 1\<close> records a negative weight.\<close>

definition negative_reads :: "read list" where
  "negative_reads = [(''r0'', ''AC'', []), (''r1'', ''CG'', [])]"

section \<open>Verified properties\<close>

subsection \<open>Reading a defaultdict\<close>

lemma dd_peek_update: "dd_peek d (AList.update k v al) n = (if n = k then v else dd_peek d al n)"
  by (simp add: dd_peek_def update_conv')

lemma dd_get_fst: "fst (dd_get d al k) = dd_peek d al k"
  by (simp add: dd_get_def dd_peek_def split: option.splits)

lemma dd_peek_dd_get: "dd_peek d (snd (dd_get d al k)) n = dd_peek d al n"
  by (auto simp: dd_get_def dd_peek_def map_add_def split: option.splits)

lemma distinct_dd_get: "distinct (map fst al) \<Longrightarrow> distinct (map fst (snd (dd_get d al k)))"
  by (auto simp: dd_get_def split: option.splits dest: map_of_eq_None_iff [THEN iffD1])

lemma map_of_dd_get: "map_of (snd (dd_get d al k)) k = Some (dd_peek d al k)"
  by (auto simp: dd_get_def dd_peek_def map_add_def split: option.splits)

subsection \<open>build\_graph as one fold over the windows\<close>

lemma dbg_k_add_kmer [simp]: "dbg_k (add_kmer st kmer) = dbg_k st"
  by (simp add: add_kmer_def Let_def split: prod.splits)

lemma dbg_k_foldl_add_kmer [simp]: "dbg_k (foldl add_kmer st ws) = dbg_k st"
  by (induction ws arbitrary: st) simp_all

lemma build_graph_kmers_gen:
  "foldl (\<lambda>s (_, seq, _). foldl add_kmer s (windows kk seq)) st reads
     = foldl add_kmer st (kmers_of kk reads)"
  by (induction reads arbitrary: st) (auto simp: kmers_of_def)

lemma build_graph_kmers: "build_graph st reads = foldl add_kmer st (kmers_of (dbg_k st) reads)"
  by (simp add: build_graph_def build_graph_kmers_gen)

subsection \<open>Degree counters and adjacency lists\<close>

lemma in_count_dd_get: "in_count (snd (dd_get [] g k)) n = in_count g n"
  by (auto simp: dd_get_def in_count_def split: option.splits)

lemma in_count_update:
  "distinct (map fst g) \<Longrightarrow> map_of g p = Some adj \<Longrightarrow>
     in_count (AList.update p (adj @ [s]) g) n = in_count g n + (if s = n then 1 else 0)"
proof (induction g)
  case Nil
  then show ?case by simp
next
  case (Cons a g)
  show ?case
  proof (cases "fst a = p")
    case True
    with Cons.prems show ?thesis by (cases a) (auto simp: in_count_def)
  next
    case False
    with Cons show ?thesis by (cases a) (auto simp: in_count_def)
  qed
qed

lemma deg_inv_add_kmer: "deg_inv st \<Longrightarrow> deg_inv (add_kmer st kmer)"
proof -
  assume inv: "deg_inv st"
  let ?p = "py_slice_to kmer (- 1)" and ?s = "py_slice_from kmer 1"
  let ?r = "dd_get [] (dbg_graph st) ?p"
  let ?adj = "dd_peek [] (dbg_graph st) ?p"
  show ?thesis
  proof (cases "list_ex (\<lambda>c. c \<notin> set ''ACGT'') kmer")
    case True
    with inv show ?thesis by (simp add: add_kmer_def)
  next
    case ok: False
    have d1: "distinct (map fst (snd ?r))"
      using inv by (simp add: deg_inv_def distinct_dd_get)
    show ?thesis
    proof (cases "?s \<in> set ?adj")
      case True
      then have "add_kmer st kmer = st\<lparr>dbg_graph := snd ?r\<rparr>"
        using ok by (simp add: add_kmer_def Let_def case_prod_beta dd_get_fst)
      with inv d1 show ?thesis
        by (simp add: deg_inv_def dd_peek_dd_get in_count_dd_get)
    next
      case False
      let ?g2 = "AList.update ?p (?adj @ [?s]) (snd ?r)"
      let ?out2 = "AList.update ?p (dd_peek 0 (dbg_out_degree st) ?p + 1)
                     (snd (dd_get 0 (dbg_out_degree st) ?p))"
      let ?in2 = "AList.update ?s (dd_peek 0 (dbg_in_degree st) ?s + 1)
                    (snd (dd_get 0 (dbg_in_degree st) ?s))"
      have eq: "add_kmer st kmer
                  = st\<lparr>dbg_graph := ?g2, dbg_out_degree := ?out2, dbg_in_degree := ?in2\<rparr>"
        using ok False by (simp add: add_kmer_def Let_def case_prod_beta dd_get_fst)
      have g: "distinct (map fst ?g2)"
        using d1 by (simp add: distinct_update)
      have o: "dd_peek 0 ?out2 n = int (length (dd_peek [] ?g2 n))" for n
        using inv by (simp add: dd_peek_update dd_peek_dd_get deg_inv_def)
      have i: "dd_peek 0 ?in2 n = int (in_count ?g2 n)" for n
        using inv in_count_update [OF d1 map_of_dd_get, of ?s n]
        by (simp add: dd_peek_update dd_peek_dd_get in_count_dd_get deg_inv_def)
      show ?thesis
        unfolding eq deg_inv_def using g o i by simp
    qed
  qed
qed

lemma deg_inv_foldl: "deg_inv st \<Longrightarrow> deg_inv (foldl add_kmer st ws)"
  by (induction ws arbitrary: st) (simp_all add: deg_inv_add_kmer)

lemma deg_inv_fresh: "deg_inv (fresh_dbg kk)"
  by (simp add: deg_inv_def fresh_dbg_def dd_peek_def in_count_def)

text \<open>
  Claim C9. \<^verbatim>\<open>build_graph\<close> on a new assembler is the fold of the edge insertion over
  the windows of the reads, and after any number \<open>m\<close> of these insertions (all of them
  included) every node \<open>n\<close> has an out-degree counter equal to the length of its
  adjacency list and an in-degree counter equal to the number of adjacency entries,
  over all nodes, that are \<open>n\<close>.
\<close>

theorem build_graph_degree_consistency:
  "build_graph (fresh_dbg kk) reads = foldl add_kmer (fresh_dbg kk) (kmers_of kk reads)
   \<and> (let st = foldl add_kmer (fresh_dbg kk) (take m (kmers_of kk reads))
      in dd_peek 0 (dbg_out_degree st) n = int (length (dd_peek [] (dbg_graph st) n))
         \<and> dd_peek 0 (dbg_in_degree st) n = int (in_count (dbg_graph st) n))"
  using deg_inv_foldl [OF deg_inv_fresh, of kk "take m (kmers_of kk reads)"]
  by (simp add: build_graph_kmers deg_inv_def fresh_dbg_def Let_def)

subsection \<open>Scenario A\<close>

lemma scenario_a_graph:
  "dbg_graph (build_graph (fresh_dbg 4) scenario_a_reads)
   = [(''ACG'', [''CGT'']), (''CGT'', [''GTA'']), (''GTA'', [''TAC'']),
       (''TAC'', [''ACT'']), (''ACT'', [''CTG'']), (''CTG'', [''TGA'']),
       (''TGA'', [''GAA''])]"
  by code_simp

text \<open>
  Claim C6. For the reads ACGTAC, GTACTG, ACTGAA and k = 4 the nodes of the graph are
  ACG, CGT, GTA, TAC, ACT, CTG, TGA and GAA, and the assembler returns the single
  contig ACGTACTGAA.
\<close>

theorem scenario_a_dbg:
  "dbg_nodes (dbg_graph (build_graph (fresh_dbg 4) scenario_a_reads))
     = {''ACG'', ''CGT'', ''GTA'', ''TAC'', ''ACT'', ''CTG'', ''TGA'', ''GAA''}
   \<and> dbg_assemble 4 scenario_a_reads = Inr [''ACGTACTGAA'']"
proof
  show "dbg_nodes (dbg_graph (build_graph (fresh_dbg 4) scenario_a_reads))
     = {''ACG'', ''CGT'', ''GTA'', ''TAC'', ''ACT'', ''CTG'', ''TGA'', ''GAA''}"
    unfolding scenario_a_graph by (auto simp: dbg_nodes_def succs_def)
  show "dbg_assemble 4 scenario_a_reads = Inr [''ACGTACTGAA'']"
    by code_simp
qed

subsection \<open>Empty input\<close>

text \<open>
  Claim C8. With no reads, for any k, any threshold and any choice of leftover edges,
  the de Bruijn stages return no contigs and leave the assembler as it was built, the
  overlap stages build the empty graph, find no paths and return no contigs, and no
  stage raises.
\<close>

theorem empty_input_no_contigs:
  "find_contigs (build_graph (fresh_dbg kk) []) = Inr ([], fresh_dbg kk)
   \<and> dbg_assemble kk [] = Inr []
   \<and> olc_graph (find_overlaps (fresh_olc min_overlap) []) = []
   \<and> find_paths pick [] = []
   \<and> generate_consensus [] [] (make_read_dict []) = Inr []
   \<and> olc_assemble pick min_overlap [] = Inr []"
  by (simp add: dbg_assemble_def DBGAssembler_init_def build_graph_def find_contigs_def
      fresh_dbg_def olc_assemble_def OLCAssembler_init_def fresh_olc_def make_read_dict_def
      find_overlaps_def overlap_events_def working_reads_def py_slice_to_def py_bound_def
      find_paths_def find_paths_run_def nx_nodes_def generate_consensus_def Let_def)

subsection \<open>Overlaps found by find\_overlaps\<close>

lemma py_range3_bounds:
  assumes "0 < step" "x \<in> set (py_range3 a b step)"
  shows "a \<le> x \<and> x < b"
proof -
  let ?X = "b - a + step - 1"
  from assms(2) obtain n where n: "n < nat (?X div step)" and x: "x = a + int n * step"
    by (auto simp: py_range3_def)
  from n have "int n + 1 \<le> ?X div step" by linarith
  then have "(int n + 1) * step \<le> (?X div step) * step"
    using assms(1) by (intro mult_right_mono) auto
  also have "\<dots> \<le> ?X"
    using div_mult_mod_eq [of ?X step] pos_mod_sign [OF assms(1), of ?X] by linarith
  finally have "int n * step < b - a" by (simp add: algebra_simps)
  moreover have "0 \<le> int n * step" using assms(1) by simp
  ultimately show ?thesis using x by simp
qed

lemma overlap_match_exact:
  assumes "overlap_match seq_i seq_j w" "w \<le> int (length seq_i)" "w \<le> int (length seq_j)"
  shows "drop (length seq_i - nat w) seq_i = take (nat w) seq_j"
proof (cases "0 < w")
  case True
  then have "py_bound (length seq_i) (- w) = length seq_i - nat w"
    using assms(2) by (simp add: py_bound_def nat_diff_distrib')
  moreover have "py_bound (length seq_j) w = nat w"
    using True assms(3) by (simp add: py_bound_def)
  ultimately show ?thesis
    using assms(1) by (simp add: overlap_match_def py_slice_from_def py_slice_to_def)
next
  case False
  then show ?thesis by simp
qed

lemma refine_fold:
  "foldl (\<lambda>mx e. if P e then max mx e else mx) a xs = a
   \<or> (foldl (\<lambda>mx e. if P e then max mx e else mx) a xs \<in> set xs
      \<and> P (foldl (\<lambda>mx e. if P e then max mx e else mx) a xs))"
proof (induction xs arbitrary: a)
  case Nil
  then show ?case by simp
next
  case (Cons x xs)
  show ?case
    using Cons.IH [of "if P x then max a x else a"]
    by (auto simp: max_def split: if_splits)
qed

lemma pair_overlap_cases:
  "pair_overlap is_long eff seq_i seq_j \<le> 0
   \<or> (overlap_match seq_i seq_j (pair_overlap is_long eff seq_i seq_j)
      \<and> pair_overlap is_long eff seq_i seq_j \<le> min (int (length seq_i)) (int (length seq_j)))"
proof -
  let ?m = "min (int (length seq_i)) (int (length seq_j))"
  let ?step = "if is_long then 10 else 1 :: int"
  show ?thesis
  proof (cases "find (overlap_match seq_i seq_j) (py_range3 eff (?m + 1) ?step)")
    case None
    then show ?thesis by (simp add: pair_overlap_def)
  next
    case (Some kk)
    then have kk: "overlap_match seq_i seq_j kk" "kk \<in> set (py_range3 eff (?m + 1) ?step)"
      by (auto simp: find_Some_iff)
    have b: "kk \<le> ?m"
      using py_range3_bounds [OF _ kk(2)] by simp
    show ?thesis
    proof (cases is_long)
      case False
      with Some kk b show ?thesis by (simp add: pair_overlap_def)
    next
      case True
      let ?start = "max (kk - 10) eff" and ?end = "min (kk + 10) ?m"
      let ?r = "refine_overlap eff 10 seq_i seq_j kk"
      have r: "pair_overlap is_long eff seq_i seq_j = ?r"
        using True Some by (simp add: pair_overlap_def)
      have "?r = 0 \<or> (?r \<in> set (py_range3 ?start (?end + 1) 1) \<and> overlap_match seq_i seq_j ?r)"
        unfolding refine_overlap_def Let_def
        by (rule refine_fold)
      then show ?thesis
      proof
        assume "?r = 0" then show ?thesis using r by simp
      next
        assume a: "?r \<in> set (py_range3 ?start (?end + 1) 1) \<and> overlap_match seq_i seq_j ?r"
        then have "?r < ?end + 1" using py_range3_bounds [of 1 ?r ?start "?end + 1"] by simp
        then have "?r \<le> ?m" by simp
        with a r show ?thesis by simp
      qed
    qed
  qed
qed

lemma overlap_events_sound:
  assumes "((i, header_i, seq_i), (j, header_j, seq_j), w) \<in> set (overlap_events min_overlap reads)"
  shows "i \<noteq> j
     \<and> (\<exists>q. (i, header_i, seq_i, q) \<in> set (enumerate 0 (working_reads reads)))
     \<and> (\<exists>q. (j, header_j, seq_j, q) \<in> set (enumerate 0 (working_reads reads)))
     \<and> w = pair_overlap (is_long_read (working_reads reads))
             (effective_min_overlap min_overlap (working_reads reads)) seq_i seq_j
     \<and> effective_min_overlap min_overlap (working_reads reads) \<le> w"
  using assms
  by (auto simp: overlap_events_def Let_def split: if_splits)

text \<open>
  Claim C5. Every call of \<^verbatim>\<open>add_edge\<close> that \<^verbatim>\<open>find_overlaps\<close> makes, for the reads at
  positions \<open>i\<close> and \<open>j\<close> of the working set with weight \<open>w\<close>, has \<open>i \<noteq> j\<close>, a weight of
  at least the effective minimum overlap and at most both read lengths, and the last
  \<open>w\<close> characters of read \<open>i\<close> are the first \<open>w\<close> characters of read \<open>j\<close>. The weight is
  the result of the pair search with either stride.
\<close>

theorem find_overlaps_edges_exact:
  assumes "((i, header_i, seq_i), (j, header_j, seq_j), w) \<in> set (overlap_events min_overlap reads)"
  shows "i \<noteq> j
     \<and> effective_min_overlap min_overlap (working_reads reads) \<le> w
     \<and> nat w \<le> length seq_i \<and> nat w \<le> length seq_j
     \<and> drop (length seq_i - nat w) seq_i = take (nat w) seq_j"
proof -
  let ?long = "is_long_read (working_reads reads)"
  let ?eff = "effective_min_overlap min_overlap (working_reads reads)"
  from overlap_events_sound [OF assms]
  have ij: "i \<noteq> j" and w: "w = pair_overlap ?long ?eff seq_i seq_j" and eff: "?eff \<le> w"
    by simp_all
  from pair_overlap_cases [of ?long ?eff seq_i seq_j]
  have "w \<le> 0 \<or> (overlap_match seq_i seq_j w \<and> w \<le> min (int (length seq_i)) (int (length seq_j)))"
    unfolding w .
  then have "nat w \<le> length seq_i \<and> nat w \<le> length seq_j
     \<and> drop (length seq_i - nat w) seq_i = take (nat w) seq_j"
  proof
    assume "w \<le> 0" then show ?thesis by simp
  next
    assume a: "overlap_match seq_i seq_j w \<and> w \<le> min (int (length seq_i)) (int (length seq_j))"
    then have b: "w \<le> int (length seq_i)" "w \<le> int (length seq_j)" by simp_all
    then have "nat w \<le> length seq_i" "nat w \<le> length seq_j" by linarith+
    with a b overlap_match_exact [of seq_i seq_j w] show ?thesis by simp
  qed
  with ij eff show ?thesis by simp
qed

theorem find_overlaps_edges_exact_witness:
  "((0, ''read0'', ''AAAACCCC''), (1, ''read1'', ''CCCCGGGG''), 4)
      \<in> set (overlap_events 4 scenario_b_reads)
   \<and> effective_min_overlap 4 (working_reads scenario_b_reads) \<le> 4
   \<and> drop (length ''AAAACCCC'' - nat 4) ''AAAACCCC'' = take (nat 4) ''CCCCGGGG''"
proof -
  have h: "((0, ''read0'', ''AAAACCCC''), (1, ''read1'', ''CCCCGGGG''), 4)
      \<in> set (overlap_events 4 scenario_b_reads)"
    by code_simp
  from find_overlaps_edges_exact [OF h] h show ?thesis by simp
qed

subsection \<open>Weights recorded in the overlap graph\<close>

lemma nx_weight_add_node: "nx_weight (nx_add_node n g) u v = nx_weight g u v"
  by (auto simp: nx_weight_def nx_add_node_def map_add_def split: option.splits)

lemma map_of_add_node_self: "\<exists>adj. map_of (nx_add_node n g) n = Some adj"
proof (cases "map_of g n")
  case None
  then have "n \<notin> set (map fst g)" by (simp add: map_of_eq_None_iff)
  with None show ?thesis by (simp add: nx_add_node_def map_add_def)
next
  case (Some adj)
  then have "n \<in> set (map fst g)" by (metis map_of_eq_None_iff option.distinct(1) set_map)
  with Some show ?thesis by (simp add: nx_add_node_def)
qed

lemma nx_weight_add_edge:
  "nx_weight (nx_add_edge a b x g) u v = (if u = a \<and> v = b then Inr x else nx_weight g u v)"
proof -
  let ?g = "nx_add_node b (nx_add_node a g)"
  have w: "nx_weight ?g u v = nx_weight g u v" by (simp add: nx_weight_add_node)
  obtain adj where adj: "map_of ?g a = Some adj"
  proof (cases "a = b")
    case True then show ?thesis using map_of_add_node_self [of b "nx_add_node a g"] that by auto
  next
    case False
    obtain adj0 where "map_of (nx_add_node a g) a = Some adj0"
      using map_of_add_node_self [of a g] by auto
    then show ?thesis using that by (auto simp: nx_add_node_def map_add_def split: option.splits)
  qed
  show ?thesis
    using w adj
    by (auto simp: nx_add_edge_def nx_weight_def map_of_map_entry update_conv' split: option.splits)
qed

lemma nx_weight_add_events:
  "nx_weight (foldl add_event g evs) u v = Inr w \<Longrightarrow>
     nx_weight g u v = Inr w \<or> w \<in> (\<lambda>ev. snd (snd ev)) ` set evs"
proof (induction evs arbitrary: g)
  case Nil
  then show ?case by simp
next
  case (Cons ev evs)
  from Cons.IH [OF Cons.prems [simplified]]
  show ?case
    by (cases ev) (auto simp: add_event_def nx_weight_add_edge split: if_splits)
qed

lemma nx_weight_fresh [simp]: "nx_weight [] u v = Inl KeyError"
  by (simp add: nx_weight_def)

lemma find_overlaps_weight_bound:
  assumes "nx_weight (olc_graph (find_overlaps (fresh_olc min_overlap) reads)) u v = Inr w"
  shows "effective_min_overlap min_overlap (working_reads reads) \<le> w"
proof -
  from assms nx_weight_add_events [of "[]" "overlap_events min_overlap reads" u v w]
  obtain ev where ev: "ev \<in> set (overlap_events min_overlap reads)" "w = snd (snd ev)"
    by (auto simp: find_overlaps_def fresh_olc_def)
  then show ?thesis
    by (auto simp: overlap_events_def Let_def split: if_splits)
qed

lemma clip_overlap_range:
  "0 \<le> w \<Longrightarrow> 0 \<le> clip_overlap w (int n) \<and> clip_overlap w (int n) \<le> int n"
  by (auto simp: clip_overlap_def)

lemma scenario_b_weight:
  "nx_weight (olc_graph (find_overlaps (fresh_olc 4) scenario_b_reads)) ''read0'' ''read1'' = Inr 4"
  by code_simp

subsection \<open>The slice offset of generate\_consensus\<close>

lemma contained_weight:
  "nx_weight (olc_graph (find_overlaps (fresh_olc 2) contained_reads)) ''r0'' ''r1'' = Inr 2"
  by code_simp

text \<open>
  Claim C10 as stated fails for a negative recorded weight: the constructor accepts the
  threshold \<open>- 1\<close>, \<^verbatim>\<open>find_overlaps\<close> then records the weight \<open>- 1\<close> for the reads AC and
  CG, the guard leaves it as it is, and the offset applied to CG is \<open>- 1\<close>.
\<close>

theorem consensus_offset_counterexample:
  "OLCAssembler_init (- 1) = Inr (fresh_olc (- 1))
   \<and> nx_weight (olc_graph (find_overlaps (fresh_olc (- 1)) negative_reads)) ''r0'' ''r1'' = Inr (- 1)
   \<and> clip_overlap (- 1) (int (length ''CG'')) = - 1
   \<and> \<not> 0 \<le> clip_overlap (- 1) (int (length ''CG''))
   \<and> generate_consensus (olc_graph (find_overlaps (fresh_olc (- 1)) negative_reads))
        [[''r0'', ''r1'']] (make_read_dict negative_reads) = Inr [''ACG'']"
  by code_simp

text \<open>
  Claim C10, amended. For every recorded weight \<open>w\<close> that is not negative and every
  next read \<open>s\<close> of a path, the step of \<^verbatim>\<open>generate_consensus\<close> appends \<open>s\<close> without its
  first \<open>offset\<close> characters, where the offset is \<open>max(0, len(s) - 1)\<close> when \<open>w\<close> is the
  length of \<open>s\<close> or more and \<open>w\<close> otherwise; the offset lies between 0 and the length of
  \<open>s\<close> and is 0 for an empty read. Every weight that \<^verbatim>\<open>find_overlaps\<close> records with a
  threshold that is not negative is itself not negative.
\<close>

theorem consensus_offset_clamped:
  assumes "nx_weight g prev cur = Inr w" "dict_get rd cur = Inr s" "0 \<le> w"
  shows "consensus_extend g rd prev contig (cur # rest)
           = consensus_extend g rd cur
               (contig @ drop (nat (clip_overlap w (int (length s)))) s) rest
       \<and> (int (length s) \<le> w \<longrightarrow> clip_overlap w (int (length s)) = max 0 (int (length s) - 1))
       \<and> (w < int (length s) \<longrightarrow> clip_overlap w (int (length s)) = w)
       \<and> 0 \<le> clip_overlap w (int (length s))
       \<and> clip_overlap w (int (length s)) \<le> int (length s)
       \<and> (s = [] \<longrightarrow> clip_overlap w (int (length s)) = 0)
       \<and> (0 \<le> min_overlap
            \<and> nx_weight (olc_graph (find_overlaps (fresh_olc min_overlap) reads)) u v = Inr w'
           \<longrightarrow> 0 \<le> w')"
proof -
  have r: "0 \<le> clip_overlap w (int (length s))" "clip_overlap w (int (length s)) \<le> int (length s)"
    using clip_overlap_range [OF assms(3), of "length s"] by simp_all
  then have sl: "py_slice_from s (clip_overlap w (int (length s)))
                  = drop (nat (clip_overlap w (int (length s)))) s"
    by (simp add: py_slice_from_def py_bound_def)
  have 1: "consensus_extend g rd prev contig (cur # rest)
           = consensus_extend g rd cur
               (contig @ drop (nat (clip_overlap w (int (length s)))) s) rest"
    using assms(1,2) sl by simp
  have 2: "int (length s) \<le> w \<longrightarrow> clip_overlap w (int (length s)) = max 0 (int (length s) - 1)"
    and 3: "w < int (length s) \<longrightarrow> clip_overlap w (int (length s)) = w"
    and 4: "s = [] \<longrightarrow> clip_overlap w (int (length s)) = 0"
    using assms(3) by (simp_all add: clip_overlap_def)
  have 5: "0 \<le> w'" if "0 \<le> min_overlap"
    "nx_weight (olc_graph (find_overlaps (fresh_olc min_overlap) reads)) u v = Inr w'"
  proof -
    have "effective_min_overlap min_overlap (working_reads reads) \<le> w'"
      using that(2) by (rule find_overlaps_weight_bound)
    moreover have "0 \<le> effective_min_overlap min_overlap (working_reads reads)"
      using that(1) by (simp add: effective_min_overlap_def)
    ultimately show ?thesis by simp
  qed
  from 1 2 3 4 5 r show ?thesis by blast
qed

theorem consensus_offset_clamped_witness:
  "nx_weight (olc_graph (find_overlaps (fresh_olc 2) contained_reads)) ''r0'' ''r1'' = Inr 2
   \<and> dict_get (make_read_dict contained_reads) ''r1'' = Inr ''AC''
   \<and> (0::int) \<le> 2
   \<and> clip_overlap 2 (int (length ''AC'')) = 1
   \<and> consensus_extend (olc_graph (find_overlaps (fresh_olc 2) contained_reads))
        (make_read_dict contained_reads) ''r0'' ''GGAC'' [''r1''] = Inr ''GGACC''"
proof -
  have a: "dict_get (make_read_dict contained_reads) ''r1'' = Inr ''AC''"
    by code_simp
  have b: "(0::int) \<le> 2" by simp
  from consensus_offset_clamped [OF contained_weight a b, of "''GGAC''" "[]"] contained_weight a
  show ?thesis by (simp add: clip_overlap_def)
qed

subsection \<open>Consensus of a two-read path\<close>

lemma two_read_consensus:
  assumes "nx_weight g h1 h2 = Inr w" "dict_get rd h1 = Inr s1" "dict_get rd h2 = Inr s2"
  shows "generate_consensus g [[h1, h2]] rd
           = Inr [s1 @ py_slice_from s2 (clip_overlap w (int (length s2)))]"
  using assms by (simp add: generate_consensus_def path_consensus_def)

text \<open>
  Claim C7 as stated fails when the recorded weight is the whole length of the second
  read: for GGAC and AC with threshold 2 the edge has weight 2, the path is the two
  reads, and the contig is GGACC, not GGAC followed by AC from offset 2 onward.
\<close>

theorem two_read_consensus_counterexample:
  "nx_weight (olc_graph (find_overlaps (fresh_olc 2) contained_reads)) ''r0'' ''r1'' = Inr 2
   \<and> find_paths (\<lambda>_. 0) (olc_graph (find_overlaps (fresh_olc 2) contained_reads)) = [[''r0'', ''r1'']]
   \<and> generate_consensus (olc_graph (find_overlaps (fresh_olc 2) contained_reads))
        [[''r0'', ''r1'']] (make_read_dict contained_reads) = Inr [''GGACC'']
   \<and> ''GGAC'' @ py_slice_from ''AC'' 2 = ''GGAC''
   \<and> olc_assemble (\<lambda>_. 0) 2 contained_reads = Inr [''GGACC'']"
  by code_simp

text \<open>
  Claim C7, amended. For a two-read path whose edge has the recorded weight \<open>w\<close>, the
  contig is the first read followed by the second from the clipped offset onward: from
  offset \<open>w\<close> when \<open>0 \<le> w\<close> and \<open>w\<close> is less than the length of the second read, and from
  its last character when \<open>w\<close> is that length or more. For AAAACCCC and CCCCGGGG with
  threshold 4 the edge has weight 4 and the contig is AAAACCCCGGGG.
\<close>

theorem two_read_consensus_clipped:
  assumes "nx_weight g h1 h2 = Inr w" "dict_get rd h1 = Inr s1" "dict_get rd h2 = Inr s2"
  shows "generate_consensus g [[h1, h2]] rd
           = Inr [s1 @ py_slice_from s2 (clip_overlap w (int (length s2)))]
     \<and> (0 \<le> w \<and> w < int (length s2)
          \<longrightarrow> generate_consensus g [[h1, h2]] rd = Inr [s1 @ drop (nat w) s2])
     \<and> (int (length s2) \<le> w
          \<longrightarrow> generate_consensus g [[h1, h2]] rd = Inr [s1 @ drop (length s2 - 1) s2])
     \<and> nx_weight (olc_graph (find_overlaps (fresh_olc 4) scenario_b_reads)) ''read0'' ''read1''
          = Inr 4
     \<and> olc_assemble pick 4 scenario_b_reads = Inr [''AAAACCCCGGGG'']"
proof -
  have 1: "generate_consensus g [[h1, h2]] rd
           = Inr [s1 @ py_slice_from s2 (clip_overlap w (int (length s2)))]"
    using assms by (rule two_read_consensus)
  have 2: "0 \<le> w \<and> w < int (length s2)
          \<longrightarrow> generate_consensus g [[h1, h2]] rd = Inr [s1 @ drop (nat w) s2]"
    unfolding 1 by (auto simp: clip_overlap_def py_slice_from_def py_bound_def)
  have "nat (max 0 (int (length s2) - 1)) = length s2 - 1"
    by (cases s2) simp_all
  then have 3: "int (length s2) \<le> w
          \<longrightarrow> generate_consensus g [[h1, h2]] rd = Inr [s1 @ drop (length s2 - 1) s2]"
    unfolding 1 by (auto simp: clip_overlap_def py_slice_from_def py_bound_def)
  have 4: "olc_assemble pick 4 scenario_b_reads = Inr [''AAAACCCCGGGG'']"
    by code_simp
  from 1 2 3 4 scenario_b_weight show ?thesis by simp
qed

theorem two_read_consensus_clipped_witness:
  "nx_weight (olc_graph (find_overlaps (fresh_olc 4) scenario_b_reads)) ''read0'' ''read1'' = Inr 4
   \<and> dict_get (make_read_dict scenario_b_reads) ''read0'' = Inr ''AAAACCCC''
   \<and> dict_get (make_read_dict scenario_b_reads) ''read1'' = Inr ''CCCCGGGG''
   \<and> generate_consensus (olc_graph (find_overlaps (fresh_olc 4) scenario_b_reads))
        [[''read0'', ''read1'']] (make_read_dict scenario_b_reads) = Inr [''AAAACCCCGGGG'']"
proof -
  have a: "dict_get (make_read_dict scenario_b_reads) ''read0'' = Inr ''AAAACCCC''"
    by code_simp
  have b: "dict_get (make_read_dict scenario_b_reads) ''read1'' = Inr ''CCCCGGGG''"
    by code_simp
  from two_read_consensus_clipped [OF scenario_b_weight a b] scenario_b_weight a b
  show ?thesis by (simp add: clip_overlap_def py_slice_from_def py_bound_def)
qed

subsection \<open>Shape of the graph that build\_graph returns\<close>

lemma window_length:
  assumes "1 \<le> kk" "w \<in> set (windows kk seq)"
  shows "length w = nat kk"
proof -
  from assms(2) obtain x where x: "x < nat (int (length seq) - kk + 1)"
    and wx: "w = py_slice seq (int x) (int x + kk)"
    by (auto simp: windows_def py_range_def split: if_splits)
  define i where "i = int x"
  have i: "0 \<le> i" "i < int (length seq) - kk + 1" and w: "w = py_slice seq i (i + kk)"
    using x wx by (auto simp: i_def)
  have "py_bound (length seq) i = nat i" "py_bound (length seq) (i + kk) = nat (i + kk)"
    using i assms(1) by (auto simp: py_bound_def)
  then show ?thesis
    using i assms(1) by (simp add: w py_slice_def Let_def)
qed

lemma prefix_suffix_length:
  "length (py_slice_to kmer (- 1)) = length kmer - 1"
  "length (py_slice_from kmer 1) = length kmer - 1"
  by (auto simp: py_slice_to_def py_slice_from_def py_bound_def)

lemma set_update_subset: "set (AList.update k v al) \<subseteq> insert (k, v) (set al)"
  by (induction al) auto

lemma set_dd_get_subset: "set (snd (dd_get d al k)) \<subseteq> insert (k, d) (set al)"
  by (auto simp: dd_get_def split: option.splits)

lemma dd_peek_cases: "dd_peek d al k = d \<or> (k, dd_peek d al k) \<in> set al"
  by (auto simp: dd_peek_def split: option.splits dest: map_of_SomeD)

lemma add_kmer_graph_cases:
  "dbg_graph (add_kmer st kmer) = dbg_graph st
   \<or> dbg_graph (add_kmer st kmer) = snd (dd_get [] (dbg_graph st) (py_slice_to kmer (- 1)))
   \<or> (py_slice_from kmer 1 \<notin> set (dd_peek [] (dbg_graph st) (py_slice_to kmer (- 1)))
      \<and> dbg_graph (add_kmer st kmer)
          = AList.update (py_slice_to kmer (- 1))
              (dd_peek [] (dbg_graph st) (py_slice_to kmer (- 1)) @ [py_slice_from kmer 1])
              (snd (dd_get [] (dbg_graph st) (py_slice_to kmer (- 1)))))"
  by (simp add: add_kmer_def Let_def case_prod_beta dd_get_fst)

lemma graph_ok_add_kmer:
  assumes "graph_ok (dbg_graph st)"
  shows "graph_ok (dbg_graph (add_kmer st kmer))"
proof -
  let ?p = "py_slice_to kmer (- 1)" and ?s = "py_slice_from kmer 1"
  let ?g = "dbg_graph st"
  let ?g1 = "snd (dd_get [] ?g ?p)"
  let ?adj = "dd_peek [] ?g ?p"
  let ?P = "\<lambda>(u, adj). distinct adj \<and> list_all (\<lambda>v. length v = length u) adj"
  have P: "\<And>e. e \<in> set ?g \<Longrightarrow> ?P e" and d: "distinct (map fst ?g)"
    using assms by (auto simp: graph_ok_def list_all_iff)
  have d1: "distinct (map fst ?g1)" using d by (rule distinct_dd_get)
  have P1: "?P e" if "e \<in> set ?g1" for e
    using that set_dd_get_subset [of "[]" ?g ?p] P by auto
  have g1: "graph_ok ?g1"
    using d1 P1 by (auto simp: graph_ok_def list_all_iff)
  have adj: "?P (?p, ?adj)"
    using dd_peek_cases [of "[]" ?g ?p] P by auto
  have g2: "graph_ok (AList.update ?p (?adj @ [?s]) ?g1)" if "?s \<notin> set ?adj"
  proof -
    have "?P (?p, ?adj @ [?s])"
      using adj that by (auto simp: prefix_suffix_length list_all_iff)
    then have "?P e" if "e \<in> set (AList.update ?p (?adj @ [?s]) ?g1)" for e
      using that set_update_subset [of ?p "?adj @ [?s]" ?g1] P1 by blast
    then show ?thesis
      using d1 by (auto simp: graph_ok_def list_all_iff distinct_update)
  qed
  from add_kmer_graph_cases [of st kmer] assms g1 g2 show ?thesis by auto
qed

lemma keys_len_add_kmer:
  assumes "keys_len (n - 1) (dbg_graph st)" "length kmer = n"
  shows "keys_len (n - 1) (dbg_graph (add_kmer st kmer))"
proof -
  let ?p = "py_slice_to kmer (- 1)" and ?s = "py_slice_from kmer 1"
  let ?g = "dbg_graph st"
  let ?g1 = "snd (dd_get [] ?g ?p)"
  let ?adj = "dd_peek [] ?g ?p"
  have P: "\<And>u adj. (u, adj) \<in> set ?g \<Longrightarrow> length u = n - 1"
    using assms by (auto simp: keys_len_def list_all_iff)
  have P1: "length u = n - 1" if "(u, adj) \<in> set ?g1" for u adj
    using that set_dd_get_subset [of "[]" ?g ?p] P assms(2) by (auto simp: prefix_suffix_length)
  have P2: "length u = n - 1" if "(u, adj) \<in> set (AList.update ?p (?adj @ [?s]) ?g1)" for u adj
    using that set_update_subset [of ?p "?adj @ [?s]" ?g1] P1 assms(2)
    by (auto simp: prefix_suffix_length)
  from add_kmer_graph_cases [of st kmer] show ?thesis
    using P P1 P2 unfolding keys_len_def list_all_iff by (elim disjE conjE) auto
qed

lemma graph_ok_foldl: "graph_ok (dbg_graph st) \<Longrightarrow> graph_ok (dbg_graph (foldl add_kmer st ws))"
  by (induction ws arbitrary: st) (simp_all add: graph_ok_add_kmer)

lemma keys_len_foldl:
  "keys_len (n - 1) (dbg_graph st) \<Longrightarrow> list_all (\<lambda>w. length w = n) ws
     \<Longrightarrow> keys_len (n - 1) (dbg_graph (foldl add_kmer st ws))"
proof (induction ws arbitrary: st)
  case Nil
  then show ?case by simp
next
  case (Cons a ws)
  from Cons.prems have "keys_len (n - 1) (dbg_graph (add_kmer st a))"
    by (intro keys_len_add_kmer) simp_all
  with Cons show ?case by simp
qed

lemma kmers_of_length: "1 \<le> kk \<Longrightarrow> list_all (\<lambda>w. length w = nat kk) (kmers_of kk reads)"
  by (auto simp: kmers_of_def list_all_iff window_length)

lemma build_graph_ok: "graph_ok (dbg_graph (build_graph (fresh_dbg kk) reads))"
  unfolding build_graph_kmers by (rule graph_ok_foldl) (simp add: fresh_dbg_def graph_ok_def)

lemma build_graph_keys_len:
  "1 \<le> kk \<Longrightarrow> keys_len (nat kk - 1) (dbg_graph (build_graph (fresh_dbg kk) reads))"
  unfolding build_graph_kmers
  by (rule keys_len_foldl) (simp_all add: fresh_dbg_def keys_len_def kmers_of_length)

lemma distinct_dbg_edges: "graph_ok g \<Longrightarrow> distinct (dbg_edges g)"
proof (induction g)
  case Nil
  then show ?case by (simp add: dbg_edges_def)
next
  case (Cons a g)
  obtain u adj where a: "a = (u, adj)" by (cases a)
  from Cons.prems have ok: "graph_ok g" and da: "distinct adj" and u: "u \<notin> fst ` set g"
    by (auto simp: graph_ok_def a)
  have "distinct (map (\<lambda>v. (u, v)) adj)" using da by (simp add: distinct_map inj_on_def)
  moreover have "set (map (\<lambda>v. (u, v)) adj) \<inter> set (dbg_edges g) = {}"
    using u by (force simp: dbg_edges_def)
  ultimately show ?case
    using Cons.IH [OF ok] by (simp add: dbg_edges_def a)
qed

lemma write_gfa_links:
  "keys_len n g \<Longrightarrow>
     concat (map (\<lambda>(node, edges). map (\<lambda>next_node. gfa_link node next_node) edges) g)
       = map (\<lambda>(a, b). gfa_link_line a b (int n - 1)) (dbg_edges g)"
  by (induction g) (auto simp: keys_len_def dbg_edges_def gfa_link_def)

subsection \<open>The exported file\<close>

lemma write_gfa_links_extends:
  assumes "dd_extends [] g g'"
  shows "concat (map (\<lambda>(node, edges). map (\<lambda>next_node. gfa_link node next_node) edges) g')
           = concat (map (\<lambda>(node, edges). map (\<lambda>next_node. gfa_link node next_node) edges) g)"
proof -
  let ?F = "\<lambda>(node, edges). map (\<lambda>next_node. gfa_link node next_node) edges"
  have none: "list_all (\<lambda>(k, v). v = []) xs \<Longrightarrow> concat (map ?F xs) = []"
    for xs :: "(string \<times> string list) list"
    by (induction xs) auto
  have "g' = g @ drop (length g) g'"
    using assms by (metis append_take_drop_id dd_extends_def)
  then have "concat (map ?F g') = concat (map ?F g) @ concat (map ?F (drop (length g) g'))"
    by (metis concat_append map_append)
  with none [of "drop (length g) g'"] assms show ?thesis
    by (simp add: dd_extends_def)
qed

text \<open>
  Claim C4 as stated fails on the overlap field: for the read ACGT and k = 3 the edge
  from AC to CG is written with 1M, not with 2M. The node GT, which is only a
  successor, has no segment line.
\<close>

theorem write_gfa_counterexample:
  "(''AC'', ''CG'') \<in> set (dbg_edges (dbg_graph (build_graph (fresh_dbg 3) single_read)))
   \<and> gfa_link_line ''AC'' ''CG'' (3 - 1)
        \<notin> set (write_gfa (dbg_graph (build_graph (fresh_dbg 3) single_read)))
   \<and> gfa_link_line ''AC'' ''CG'' 1
        \<in> set (write_gfa (dbg_graph (build_graph (fresh_dbg 3) single_read)))
   \<and> ''GT'' \<in> dbg_nodes (dbg_graph (build_graph (fresh_dbg 3) single_read))
   \<and> gfa_segment ''GT'' \<notin> set (write_gfa (dbg_graph (build_graph (fresh_dbg 3) single_read)))"
  by code_simp

text \<open>
  Claim C4, amended. For a graph built with \<open>k \<ge> 1\<close> the exported file is the header
  line, then one segment line for each key of the adjacency dictionary, then one link
  line for each edge, whose overlap field is \<open>k - 2\<close> (the length of a node minus one);
  the keys are distinct and so are the edges. The same holds, with the same link lines,
  for the graph with default entries appended that \<^verbatim>\<open>find_contigs\<close> leaves.
\<close>

theorem write_gfa_layout:
  assumes "1 \<le> kk"
  shows "write_gfa (dbg_graph (build_graph (fresh_dbg kk) reads))
           = [gfa_header]
             @ map gfa_segment (map fst (dbg_graph (build_graph (fresh_dbg kk) reads)))
             @ map (\<lambda>(a, b). gfa_link_line a b (kk - 2))
                 (dbg_edges (dbg_graph (build_graph (fresh_dbg kk) reads)))
         \<and> distinct (map fst (dbg_graph (build_graph (fresh_dbg kk) reads)))
         \<and> distinct (dbg_edges (dbg_graph (build_graph (fresh_dbg kk) reads)))
         \<and> (dd_extends [] (dbg_graph (build_graph (fresh_dbg kk) reads)) g'
              \<longrightarrow> write_gfa g'
                    = [gfa_header] @ map gfa_segment (map fst g')
                      @ map (\<lambda>(a, b). gfa_link_line a b (kk - 2))
                          (dbg_edges (dbg_graph (build_graph (fresh_dbg kk) reads))))"
proof -
  let ?g = "dbg_graph (build_graph (fresh_dbg kk) reads)"
  have ext: "write_gfa g' = [gfa_header] @ map gfa_segment (map fst g')
               @ concat (map (\<lambda>(node, edges). map (\<lambda>next_node. gfa_link node next_node) edges) ?g)"
    if "dd_extends [] ?g g'"
    using write_gfa_links_extends [OF that] by (simp add: write_gfa_def)
  have "int (nat kk - 1) - 1 = kk - 2" using assms by simp
  with write_gfa_links [OF build_graph_keys_len [OF assms, of reads]]
  have "write_gfa ?g = [gfa_header] @ map gfa_segment (map fst ?g)
             @ map (\<lambda>(a, b). gfa_link_line a b (kk - 2)) (dbg_edges ?g)"
    by (simp add: write_gfa_def)
  moreover have "distinct (map fst ?g)"
    using build_graph_ok [of kk reads] by (simp add: graph_ok_def)
  moreover have "distinct (dbg_edges ?g)"
    using build_graph_ok [of kk reads] by (rule distinct_dbg_edges)
  ultimately show ?thesis using ext by (simp add: write_gfa_def)
qed

lemma single_read_graph:
  "dbg_graph (build_graph (fresh_dbg 3) single_read) = [(''AC'', [''CG'']), (''CG'', [''GT''])]"
  by code_simp

theorem write_gfa_layout_witness:
  "(1::int) \<le> 3
   \<and> write_gfa (dbg_graph (build_graph (fresh_dbg 3) single_read))
       = [gfa_header, gfa_segment ''AC'', gfa_segment ''CG'',
          gfa_link_line ''AC'' ''CG'' 1, gfa_link_line ''CG'' ''GT'' 1]"
  using write_gfa_layout [of 3 single_read]
  by (simp add: single_read_graph dbg_edges_def)

subsection \<open>What find\_contigs changes\<close>

lemma dd_extends_iff: "dd_extends d al al' \<longleftrightarrow> (\<exists>ks. al' = al @ map (\<lambda>k. (k, d)) ks)"
proof
  assume a: "dd_extends d al al'"
  let ?ext = "drop (length al) al'"
  have "list_all (\<lambda>(k, v). v = d) xs \<Longrightarrow> xs = map (\<lambda>k. (k, d)) (map fst xs)" for xs :: "('b \<times> 'a) list"
    by (induction xs) auto
  then have "?ext = map (\<lambda>k. (k, d)) (map fst ?ext)"
    using a by (simp add: dd_extends_def)
  moreover have "al' = al @ ?ext"
    using a by (metis append_take_drop_id dd_extends_def)
  ultimately show "\<exists>ks. al' = al @ map (\<lambda>k. (k, d)) ks" by metis
next
  assume "\<exists>ks. al' = al @ map (\<lambda>k. (k, d)) ks"
  then show "dd_extends d al al'" by (auto simp: dd_extends_def list_all_iff)
qed

lemma dd_extends_refl [simp]: "dd_extends d al al"
  by (simp add: dd_extends_def)

lemma dd_extends_trans: "dd_extends d a b \<Longrightarrow> dd_extends d b c \<Longrightarrow> dd_extends d a c"
  unfolding dd_extends_iff by (metis append.assoc map_append)

lemma dd_extends_dd_get [simp]: "dd_extends d al (snd (dd_get d al k))"
  by (auto simp: dd_get_def dd_extends_def split: option.splits)

lemma dd_extends_peek: "dd_extends d al al' \<Longrightarrow> dd_peek d al' n = dd_peek d al n"
proof -
  assume "dd_extends d al al'"
  then obtain ks where ks: "al' = al @ map (\<lambda>k. (k, d)) ks" unfolding dd_extends_iff by blast
  have "map_of (map (\<lambda>k. (k, d)) ks) n = None \<or> map_of (map (\<lambda>k. (k, d)) ks) n = Some d"
    by (induction ks) auto
  then show ?thesis
    by (auto simp: ks dd_peek_def map_add_def split: option.splits)
qed

lemma dd_extends_edges: "dd_extends [] g g' \<Longrightarrow> dbg_edges g' = dbg_edges g"
proof -
  assume "dd_extends [] g g'"
  then obtain ks where ks: "g' = g @ map (\<lambda>k. (k, [])) ks" unfolding dd_extends_iff by blast
  have "dbg_edges (map (\<lambda>k. (k, [])) ks) = []" by (induction ks) (auto simp: dbg_edges_def)
  then show ?thesis by (simp add: ks dbg_edges_def)
qed

lemma frame_refl [simp]: "frame st st"
  by (simp add: frame_def)

lemma frame_trans: "frame a b \<Longrightarrow> frame b c \<Longrightarrow> frame a c"
  unfolding frame_def by (auto intro: dd_extends_trans)

lemma frame_graph [simp]: "frame st (st\<lparr>dbg_graph := snd (dd_get [] (dbg_graph st) k)\<rparr>)"
  by (simp add: frame_def)

lemma frame_in [simp]: "frame st (st\<lparr>dbg_in_degree := snd (dd_get 0 (dbg_in_degree st) k)\<rparr>)"
  by (simp add: frame_def)

lemma frame_out [simp]: "frame st (st\<lparr>dbg_out_degree := snd (dd_get 0 (dbg_out_degree st) k)\<rparr>)"
  by (simp add: frame_def)

lemma select_starts_frame:
  "frame st (snd (select_starts ns st)) \<and> dbg_graph (snd (select_starts ns st)) = dbg_graph st"
proof (induction ns arbitrary: st)
  case Nil
  then show ?case by simp
next
  case (Cons node ns)
  let ?st1 = "st\<lparr>dbg_out_degree := snd (dd_get 0 (dbg_out_degree st) node)\<rparr>"
  let ?st2 = "?st1\<lparr>dbg_in_degree := snd (dd_get 0 (dbg_in_degree ?st1) node)\<rparr>"
  have f1: "frame st ?st1" by simp
  have f2: "frame st ?st2" using frame_trans [OF f1 frame_in [of ?st1 node]] .
  from frame_trans [OF f1] Cons.IH [of ?st1] have a: "frame st (snd (select_starts ns ?st1))" by blast
  from frame_trans [OF f2] Cons.IH [of ?st2] have b: "frame st (snd (select_starts ns ?st2))" by blast
  from a b Cons.IH [of ?st1] Cons.IH [of ?st2] show ?case
    by (simp add: Let_def case_prod_beta)
qed

lemma first_with_out_frame:
  "frame st (snd (first_with_out ns st)) \<and> dbg_graph (snd (first_with_out ns st)) = dbg_graph st"
proof (induction ns arbitrary: st)
  case Nil
  then show ?case by simp
next
  case (Cons node ns)
  let ?st1 = "st\<lparr>dbg_out_degree := snd (dd_get 0 (dbg_out_degree st) node)\<rparr>"
  have f1: "frame st ?st1" by simp
  from frame_trans [OF f1] Cons.IH [of ?st1] have a: "frame st (snd (first_with_out ns ?st1))" by blast
  from a f1 Cons.IH [of ?st1] show ?case
    by (simp add: Let_def case_prod_beta)
qed

lemma graph_ok_dd_get: "graph_ok g \<Longrightarrow> graph_ok (snd (dd_get [] g k))"
  by (auto simp: graph_ok_def dd_get_def map_of_eq_None_iff split: option.splits)

lemma graph_ok_successor:
  assumes "graph_ok g" "fst (dd_get [] g current) = [n]"
  shows "length n = length current"
proof -
  from assms(2) have "map_of g current = Some [n]"
    by (auto simp: dd_get_def split: option.splits)
  then have "(current, [n]) \<in> set g" by (rule map_of_SomeD)
  with assms(1) show ?thesis by (auto simp: graph_ok_def list_all_iff)
qed

lemma walk_total:
  "graph_ok (dbg_graph st) \<Longrightarrow> path \<noteq> [] \<Longrightarrow>
     \<exists>path' visited' st'. walk st current path visited = Inr (path', visited', st')
        \<and> path' \<noteq> [] \<and> frame st st' \<and> graph_ok (dbg_graph st')"
proof (induction st current path visited rule: walk.induct)
  case (1 st current path visited)
  let ?v1 = "insert current visited"
  let ?r = "dd_get [] (dbg_graph st) current"
  let ?st1 = "st\<lparr>dbg_graph := snd ?r\<rparr>"
  have ok1: "graph_ok (dbg_graph ?st1)" using "1.prems"(1) by (simp add: graph_ok_dd_get)
  have f1: "frame st ?st1" by simp
  show ?case
  proof (cases "\<exists>n. fst ?r = [n]")
    case False
    then have "walk st current path visited = Inr (path, ?v1, ?st1)"
      by (subst walk.simps) (auto simp: Let_def split: list.splits)
    with ok1 f1 "1.prems"(2) show ?thesis by simp
  next
    case True
    then obtain n where n: "fst ?r = [n]" by blast
    let ?q = "dd_get 0 (dbg_in_degree ?st1) n"
    let ?st2 = "?st1\<lparr>dbg_in_degree := snd ?q\<rparr>"
    have ok2: "graph_ok (dbg_graph ?st2)" using ok1 by simp
    have f2: "frame st ?st2" using frame_trans [OF f1 frame_in [of ?st1 n]] .
    show ?thesis
    proof (cases "fst ?q = 1 \<and> n \<notin> ?v1")
      case False
      then have "walk st current path visited = Inr (path, ?v1, ?st2)"
        by (subst walk.simps) (auto simp: Let_def n)
      with ok2 f2 "1.prems"(2) show ?thesis by simp
    next
      case True
      have "length n = length current" using graph_ok_successor [OF "1.prems"(1) n] .
      with True have ne: "n \<noteq> []" by auto
      have w: "walk st current path visited = walk ?st2 n (path @ [[last n]]) ?v1"
        using True ne by (subst walk.simps) (simp add: Let_def n)
      from True have t1: "fst ?q = 1" and t2: "n \<notin> ?v1" by simp_all
      have "\<exists>path' visited' st'. walk ?st2 n (path @ [[last n]]) ?v1 = Inr (path', visited', st')
        \<and> path' \<noteq> [] \<and> frame ?st2 st' \<and> graph_ok (dbg_graph st')"
        using "1.IH" [OF refl refl refl refl n refl refl refl t1 t2 ne ok2] by simp
      then show ?thesis unfolding w using frame_trans [OF f2] by blast
    qed
  qed
qed


lemma path_to_contig_total: "path \<noteq> [] \<Longrightarrow> \<exists>c. path_to_contig path = Inr c"
  by (cases path) (simp_all add: path_to_contig_def)

lemma extract_contigs_total:
  "graph_ok (dbg_graph st) \<Longrightarrow>
     \<exists>contigs' st'. extract_contigs ss contigs visited st = Inr (contigs', st') \<and> frame st st'"
proof (induction ss arbitrary: contigs visited st)
  case Nil
  then show ?case by simp
next
  case (Cons start ss)
  show ?case
  proof (cases "start \<in> visited")
    case True
    with Cons show ?thesis by simp
  next
    case False
    from walk_total [OF Cons.prems, of "[start]" start visited]
    obtain path' visited' st1 where w: "walk st start [start] visited = Inr (path', visited', st1)"
      and p: "path' \<noteq> []" and f: "frame st st1" and ok: "graph_ok (dbg_graph st1)"
      by auto
    from path_to_contig_total [OF p] obtain c where c: "path_to_contig path' = Inr c" by blast
    from Cons.IH [OF ok] frame_trans [OF f] False w c show ?thesis
      by simp blast
  qed
qed

lemma find_contigs_total:
  assumes "graph_ok (dbg_graph st)"
  shows "\<exists>contigs st'. find_contigs st = Inr (contigs, st') \<and> frame st st'"
proof -
  let ?nodes = "map fst (dbg_graph st)"
  let ?r1 = "select_starts ?nodes st"
  let ?r2 = "if fst ?r1 = [] then first_with_out ?nodes (snd ?r1) else (fst ?r1, snd ?r1)"
  have f1: "frame st (snd ?r1)" and g1: "dbg_graph (snd ?r1) = dbg_graph st"
    using select_starts_frame [of st ?nodes] by simp_all
  have f2: "frame st (snd ?r2)" and g2: "dbg_graph (snd ?r2) = dbg_graph st"
    using f1 g1 first_with_out_frame [of "snd ?r1" ?nodes] frame_trans [OF f1] by auto
  have fc: "find_contigs st = extract_contigs (fst ?r2) [] {} (snd ?r2)"
    by (simp add: find_contigs_def Let_def case_prod_beta)
  from extract_contigs_total [of "snd ?r2" "fst ?r2" "[]" "{}"] assms g2
  obtain contigs st' where "extract_contigs (fst ?r2) [] {} (snd ?r2) = Inr (contigs, st')"
    "frame (snd ?r2) st'" by auto
  with fc frame_trans [OF f2] show ?thesis by auto
qed

text \<open>
  Claim C3 as stated fails on the key set: for the read ACGT and k = 3 the graph has the
  keys AC and CG before \<^verbatim>\<open>find_contigs\<close> and the keys AC, CG and GT after it, and the
  in-degree dictionary has gained the key AC.
\<close>

theorem find_contigs_frame_counterexample:
  "find_contigs (build_graph (fresh_dbg 3) single_read)
     = Inr ([''ACGT''],
            \<lparr>dbg_k = 3,
             dbg_graph = [(''AC'', [''CG'']), (''CG'', [''GT'']), (''GT'', [])],
             dbg_in_degree = [(''CG'', 1), (''GT'', 1), (''AC'', 0)],
             dbg_out_degree = [(''AC'', 1), (''CG'', 1)]\<rparr>)
   \<and> map fst (dbg_graph (build_graph (fresh_dbg 3) single_read)) = [''AC'', ''CG'']
   \<and> dbg_in_degree (build_graph (fresh_dbg 3) single_read) = [(''CG'', 1), (''GT'', 1)]"
  by code_simp

text \<open>
  Claim C3, amended. For every graph built by \<^verbatim>\<open>build_graph\<close> on a new assembler,
  \<^verbatim>\<open>find_contigs\<close> returns, and the assembler it leaves has the same \<open>k\<close>; its graph and
  its two degree dictionaries are the old ones followed by entries with the default
  value (an empty adjacency list, a zero counter); the edges are the same, and every
  node reads the same adjacency list and the same counters as before.
\<close>

theorem find_contigs_frame:
  "\<exists>contigs st'.
      find_contigs (build_graph (fresh_dbg kk) reads) = Inr (contigs, st')
    \<and> dbg_k st' = kk
    \<and> dd_extends [] (dbg_graph (build_graph (fresh_dbg kk) reads)) (dbg_graph st')
    \<and> dd_extends 0 (dbg_in_degree (build_graph (fresh_dbg kk) reads)) (dbg_in_degree st')
    \<and> dd_extends 0 (dbg_out_degree (build_graph (fresh_dbg kk) reads)) (dbg_out_degree st')
    \<and> dbg_edges (dbg_graph st') = dbg_edges (dbg_graph (build_graph (fresh_dbg kk) reads))
    \<and> dd_peek [] (dbg_graph st') n = dd_peek [] (dbg_graph (build_graph (fresh_dbg kk) reads)) n
    \<and> dd_peek 0 (dbg_in_degree st') n
         = dd_peek 0 (dbg_in_degree (build_graph (fresh_dbg kk) reads)) n
    \<and> dd_peek 0 (dbg_out_degree st') n
         = dd_peek 0 (dbg_out_degree (build_graph (fresh_dbg kk) reads)) n"
proof -
  let ?st = "build_graph (fresh_dbg kk) reads"
  from find_contigs_total [OF build_graph_ok [of kk reads]]
  obtain contigs st' where fc: "find_contigs ?st = Inr (contigs, st')" and f: "frame ?st st'"
    by blast
  have k: "dbg_k ?st = kk" by (simp add: build_graph_kmers fresh_dbg_def)
  from f have e: "dd_extends [] (dbg_graph ?st) (dbg_graph st')"
    "dd_extends 0 (dbg_in_degree ?st) (dbg_in_degree st')"
    "dd_extends 0 (dbg_out_degree ?st) (dbg_out_degree st')" and k': "dbg_k st' = dbg_k ?st"
    by (simp_all add: frame_def)
  from fc k k' e dd_extends_edges [OF e(1)] dd_extends_peek [OF e(1), of n]
    dd_extends_peek [OF e(2), of n] dd_extends_peek [OF e(3), of n]
  show ?thesis by simp
qed

subsection \<open>Configuration values at or below zero\<close>

lemma windows_empty_kmer:
  assumes "kk \<le> 0"
  shows "[] \<in> set (windows kk seq)"
proof -
  let ?n = "int (length seq)"
  have a: "py_slice seq ?n (?n + kk) = []"
    by (simp add: py_slice_def py_bound_def Let_def)
  have "length seq < nat (?n - kk + 1)" using assms by linarith
  then have "?n \<in> set (py_range (?n - kk + 1))"
    unfolding py_range_def by (simp add: image_iff)
  then have "py_slice seq ?n (?n + kk) \<in> (\<lambda>i. py_slice seq i (i + kk)) ` set (py_range (?n - kk + 1))"
    by (rule imageI)
  then show ?thesis using assms a by (simp add: windows_def)
qed

lemma dd_get_nonempty: "snd (dd_get d al k) \<noteq> []"
  using map_of_dd_get [of d al k] by auto

lemma add_kmer_keeps_graph: "dbg_graph st \<noteq> [] \<Longrightarrow> dbg_graph (add_kmer st kmer) \<noteq> []"
  using add_kmer_graph_cases [of st kmer] dd_get_nonempty [of "[]" "dbg_graph st"]
  by (elim disjE conjE) simp_all

lemma add_kmer_empty_window: "dbg_graph (add_kmer st []) \<noteq> []"
proof -
  have "dbg_graph (add_kmer st [])
          = (if [] \<in> set (dd_peek [] (dbg_graph st) [])
             then snd (dd_get [] (dbg_graph st) [])
             else AList.update [] (dd_peek [] (dbg_graph st) [] @ [[]])
                    (snd (dd_get [] (dbg_graph st) [])))"
    by (simp add: add_kmer_def Let_def case_prod_beta dd_get_fst py_slice_to_def py_slice_from_def)
  then show ?thesis by (simp add: dd_get_nonempty)
qed


lemma foldl_add_kmer_keeps: "dbg_graph st \<noteq> [] \<Longrightarrow> dbg_graph (foldl add_kmer st ws) \<noteq> []"
  by (induction ws arbitrary: st) (simp_all add: add_kmer_keeps_graph)

lemma foldl_add_kmer_nonempty: "[] \<in> set ws \<Longrightarrow> dbg_graph (foldl add_kmer st ws) \<noteq> []"
proof (induction ws arbitrary: st)
  case Nil
  then show ?case by simp
next
  case (Cons w ws)
  show ?case
  proof (cases "w = []")
    case True
    then show ?thesis using foldl_add_kmer_keeps [OF add_kmer_empty_window, of st ws] by simp
  next
    case False
    with Cons show ?thesis by simp
  qed
qed

text \<open>
  Claim C2 as stated fails: with k = 0 the constructor returns an assembler,
  \<^verbatim>\<open>build_graph\<close> builds a graph (the empty node with a loop) and the pipeline returns a
  contig; with a threshold of 0 the overlap assembler builds a graph and returns a
  contig. No configuration error is raised anywhere.
\<close>

theorem config_error_counterexample:
  "\<not> isl (DBGAssembler_init 0)
   \<and> dbg_graph (build_graph (fresh_dbg 0) [(''read1'', ''AC'', [])]) = [([], [[]])]
   \<and> dbg_assemble 0 [(''read1'', ''AC'', [])] = Inr [[]]
   \<and> \<not> isl (OLCAssembler_init 0)
   \<and> olc_graph (find_overlaps (fresh_olc 0) [(''r0'', ''AC'', []), (''r1'', ''CG'', [])])
       = [(''r0'', [(''r1'', 1)]), (''r1'', [(''r0'', 0)])]
   \<and> olc_assemble (\<lambda>_. 0) 0 [(''r0'', ''AC'', []), (''r1'', ''CG'', [])] = Inr [''ACG'']"
  by code_simp

text \<open>
  Claim C2, amended. Neither constructor checks its parameter: for every \<open>k\<close> and every
  threshold, those at or below 0 included, it returns an assembler that stores the value
  with an empty graph; and with \<open>k \<le> 0\<close> \<^verbatim>\<open>build_graph\<close> on at least one read goes on to
  build a graph that is not empty.
\<close>

theorem config_not_validated:
  "DBGAssembler_init kk = Inr (fresh_dbg kk)
   \<and> OLCAssembler_init min_overlap = Inr (fresh_olc min_overlap)
   \<and> (kk \<le> 0 \<and> reads \<noteq> [] \<longrightarrow> dbg_graph (build_graph (fresh_dbg kk) reads) \<noteq> [])"
proof -
  have "dbg_graph (build_graph (fresh_dbg kk) reads) \<noteq> []" if "kk \<le> 0" "reads \<noteq> []"
  proof -
    from that(2) obtain h seq q rest where r: "reads = (h, seq, q) # rest"
      by (cases reads) auto
    have "[] \<in> set (kmers_of kk reads)"
      using windows_empty_kmer [OF that(1), of seq] by (simp add: kmers_of_def r)
    then show ?thesis
      unfolding build_graph_kmers by (simp add: foldl_add_kmer_nonempty fresh_dbg_def)
  qed
  then show ?thesis by (simp add: DBGAssembler_init_def OLCAssembler_init_def)
qed

theorem config_not_validated_witness:
  "(0::int) \<le> 0 \<and> [(''read1'', ''AC'', [])] \<noteq> ([] :: read list)
   \<and> DBGAssembler_init 0 = Inr (fresh_dbg 0)
   \<and> dbg_graph (build_graph (fresh_dbg 0) [(''read1'', ''AC'', [])]) \<noteq> []"
  using config_not_validated [of 0 0 "[(''read1'', ''AC'', [])]"] by simp

subsection \<open>Paths emitted by find\_paths\<close>

text \<open>The greedy choice reads the weight of an outgoing edge, which is always recorded.\<close>

lemma nx_out_edges_weight:
  assumes "e \<in> set (nx_out_edges g n)"
  shows "\<exists>w. nx_weight g (fst e) (snd e) = Inr w"
proof -
  from assms obtain v w0 where vw: "(v, w0) \<in> set (nx_succ g n)" and e: "e = (n, v)"
    by (auto simp: nx_out_edges_def)
  from vw obtain adj where adj: "map_of g n = Some adj" "(v, w0) \<in> set adj"
    by (cases "map_of g n") (auto simp: nx_succ_def)
  from adj(2) have "v \<in> fst ` set adj" by force
  then obtain w where "map_of adj v = Some w"
    by (meson domD domI dom_map_of_conv_image_fst weak_map_of_SomeI map_of_eq_None_iff not_None_eq)
  with adj(1) e show ?thesis by (simp add: nx_weight_def)
qed

lemma path_pairs_snoc: "p \<noteq> [] \<Longrightarrow> path_pairs (p @ [n]) = path_pairs p @ [(last p, n)]"
  by (induction p) (auto simp: path_pairs_def neq_Nil_conv)

lemma path_pairs_simps [simp]: "path_pairs [a] = []" "path_pairs [a, b] = [(a, b)]"
  by (simp_all add: path_pairs_def)

lemma nx_out_edges_fst: "e \<in> set (nx_out_edges g n) \<Longrightarrow> fst e = n"
  by (auto simp: nx_out_edges_def)

lemma extend_path_inv:
  assumes "path \<noteq> []" "last path = current" "distinct (path_pairs path)"
    "set (path_pairs path) \<subseteq> visited_edges" "visited_edges \<subseteq> set (nx_edges g)"
  shows "distinct (path_pairs (fst (extend_path g current path visited_edges)))
       \<and> set (path_pairs (fst (extend_path g current path visited_edges)))
            \<subseteq> snd (extend_path g current path visited_edges)
       \<and> snd (extend_path g current path visited_edges) \<subseteq> set (nx_edges g)
       \<and> set (path_pairs (fst (extend_path g current path visited_edges))) \<inter> visited_edges
            \<subseteq> set (path_pairs path)
       \<and> length path \<le> length (fst (extend_path g current path visited_edges))"
  using assms
proof (induction g current path visited_edges rule: extend_path.induct)
  case (1 g current path visited_edges)
  show ?case
  proof (cases "filter (\<lambda>e. e \<notin> visited_edges) (nx_out_edges g current)")
    case Nil
    then have "extend_path g current path visited_edges = (path, visited_edges)"
      by (simp add: extend_path.simps [of g current])
    with "1.prems" show ?thesis by simp
  next
    case (Cons e es)
    let ?ne = "py_max_key (edge_key g) e es"
    let ?v1 = "insert ?ne visited_edges"
    from greedy_choice [OF Cons, of "edge_key g"]
    have ne: "?ne \<in> set (nx_out_edges g current)" "?ne \<notin> visited_edges" by simp_all
    then have neE: "?ne \<in> set (nx_edges g)" using nx_out_edges_subset by blast
    have nef: "?ne = (current, snd ?ne)" using nx_out_edges_fst [OF ne(1)] by (cases ?ne) simp
    show ?thesis
    proof (cases "snd ?ne \<in> set path")
      case True
      with Cons have "extend_path g current path visited_edges = (path, ?v1)"
        by (simp add: extend_path.simps [of g current] Let_def)
      with "1.prems" neE show ?thesis by auto
    next
      case False
      let ?p1 = "path @ [snd ?ne]"
      have eq: "extend_path g current path visited_edges = extend_path g (snd ?ne) ?p1 ?v1"
        using Cons False by (simp add: extend_path.simps [of g current] Let_def)
      have pp: "path_pairs ?p1 = path_pairs path @ [?ne]"
        using path_pairs_snoc [OF "1.prems"(1), of "snd ?ne"] "1.prems"(2) nef by simp
      have a1: "?p1 \<noteq> []" and a2: "last ?p1 = snd ?ne" by simp_all
      have a3: "distinct (path_pairs ?p1)"
        using "1.prems"(3,4) ne(2) unfolding pp by auto
      have a4: "set (path_pairs ?p1) \<subseteq> ?v1"
        using "1.prems"(4) unfolding pp by auto
      have a5: "?v1 \<subseteq> set (nx_edges g)" using "1.prems"(5) neE by simp
      note ih = "1.IH" [OF Cons refl refl refl False a1 a2 a3 a4 a5]
      let ?r = "extend_path g (snd ?ne) ?p1 ?v1"
      from ih have "set (path_pairs (fst ?r)) \<inter> ?v1 \<subseteq> set (path_pairs ?p1)" by simp
      then have "set (path_pairs (fst ?r)) \<inter> visited_edges \<subseteq> set (path_pairs path)"
        unfolding pp using ne(2) by auto
      moreover from ih have "length path \<le> length (fst ?r)" by simp
      ultimately show ?thesis unfolding eq using ih by simp
    qed
  qed
qed


lemma build_greedy_paths_inv:
  assumes inv: "paths_inv g paths visited_edges"
    and se: "start_edge = None \<or> (\<exists>e. start_edge = Some e \<and> e \<in> set (nx_edges g) \<and> e \<notin> visited_edges)"
  shows "paths_inv g (fst (build_greedy_paths g start paths visited_edges start_edge))
           (snd (build_greedy_paths g start paths visited_edges start_edge))"
proof -
  define init where "init =
    (case start_edge of
       None \<Rightarrow> (start, [start], visited_edges)
     | Some (u, v) \<Rightarrow>
         if u = start then (v, [start, v], insert (u, v) visited_edges)
         else (start, [start], visited_edges))"
  obtain c0 p0 v0 where i: "init = (c0, p0, v0)" by (cases init)
  have pre: "p0 \<noteq> [] \<and> last p0 = c0 \<and> distinct (path_pairs p0) \<and> set (path_pairs p0) \<subseteq> v0
      \<and> v0 \<subseteq> set (nx_edges g) \<and> visited_edges \<subseteq> v0 \<and> set (path_pairs p0) \<inter> visited_edges = {}"
    using se inv i unfolding init_def paths_inv_def
    by (auto split: option.splits prod.splits if_splits)
  let ?r = "extend_path g c0 p0 v0"
  have bg: "build_greedy_paths g start paths visited_edges start_edge
          = (if length (fst ?r) > 1 then paths @ [fst ?r] else paths, snd ?r)"
    using i unfolding init_def build_greedy_paths_def
    by (simp add: case_prod_beta)
  from pre have e: "distinct (path_pairs (fst ?r))" "set (path_pairs (fst ?r)) \<subseteq> snd ?r"
    "snd ?r \<subseteq> set (nx_edges g)" "set (path_pairs (fst ?r)) \<inter> v0 \<subseteq> set (path_pairs p0)"
    using extend_path_inv [of p0 c0 v0 g] by simp_all
  have m: "v0 \<subseteq> snd ?r" by (rule extend_path_visited_mono)
  have dis: "set (path_pairs (fst ?r)) \<inter> visited_edges = {}"
    using e(4) pre by blast
  have old: "set (all_path_pairs paths) \<subseteq> visited_edges" "distinct (all_path_pairs paths)"
    "list_all (\<lambda>p. 2 \<le> length p) paths"
    using inv by (simp_all add: paths_inv_def)
  show ?thesis
  proof (cases "length (fst ?r) > 1")
    case True
    have "distinct (all_path_pairs (paths @ [fst ?r]))"
      using old e(1) dis by (auto simp: all_path_pairs_def)
    moreover have "visited_edges \<subseteq> snd ?r" using m pre by blast
    then have "set (all_path_pairs (paths @ [fst ?r])) \<subseteq> snd ?r"
      using old(1) e(2) by (simp add: all_path_pairs_def)
    ultimately show ?thesis
      unfolding bg paths_inv_def using True e(3) old(3) by simp
  next
    case False
    moreover have "visited_edges \<subseteq> snd ?r" using m pre by blast
    ultimately show ?thesis
      unfolding bg paths_inv_def using old e(3) by auto
  qed
qed

lemma from_starts_inv:
  "paths_inv g paths visited_edges \<Longrightarrow>
     paths_inv g (fst (from_starts g ss paths visited_edges))
       (snd (from_starts g ss paths visited_edges))"
proof (induction ss arbitrary: paths visited_edges)
  case Nil
  then show ?case by simp
next
  case (Cons start ss)
  from Cons.IH [OF build_greedy_paths_inv [OF Cons.prems, of None start]]
  show ?case by (simp add: case_prod_beta)
qed

lemma leftover_edges_inv:
  "paths_inv g paths visited_edges \<Longrightarrow>
     paths_inv g (fst (leftover_edges pick g paths visited_edges))
       (snd (leftover_edges pick g paths visited_edges))
     \<and> set (nx_edges g) \<subseteq> snd (leftover_edges pick g paths visited_edges)"
proof (induction pick g paths visited_edges rule: leftover_edges.induct)
  case (1 pick g paths visited_edges)
  let ?un = "filter (\<lambda>e. e \<notin> visited_edges) (remdups (nx_edges g))"
  show ?case
  proof (cases "?un = []")
    case True
    then have "leftover_edges pick g paths visited_edges = (paths, visited_edges)"
      by (simp add: leftover_edges.simps [of pick g paths visited_edges])
    moreover from True have "set (nx_edges g) \<subseteq> visited_edges"
      by (auto simp: filter_empty_conv)
    ultimately show ?thesis using "1.prems" by simp
  next
    case False
    let ?e = "?un ! (pick ?un mod length ?un)"
    let ?r = "build_greedy_paths g (fst ?e) paths visited_edges (Some ?e)"
    have "?e \<in> set ?un" using False by (intro nth_mem) simp
    then have e: "?e \<in> set (nx_edges g)" "?e \<notin> visited_edges" by auto
    have inv: "paths_inv g (fst ?r) (snd ?r)"
      using build_greedy_paths_inv [OF "1.prems", of "Some ?e" "fst ?e"] e by simp
    have eq: "leftover_edges pick g paths visited_edges = leftover_edges pick g (fst ?r) (snd ?r)"
      using False by (simp add: leftover_edges.simps [of pick g paths visited_edges] Let_def)
    from "1.IH" [OF refl False refl refl inv] show ?thesis unfolding eq .
  qed
qed

lemma cyclic_graph:
  "olc_graph (find_overlaps (fresh_olc 2) cyclic_reads)
     = [(''r0'', [(''r1'', 2)]), (''r1'', [(''r0'', 2)])]"
  by code_simp

text \<open>
  Claim C1 as stated fails on omission: for the two reads ACAC and ACAC with threshold 2
  the graph has the edges from r0 to r1 and from r1 to r0, the only emitted path is
  r0, r1, and the edge from r1 to r0 is in no emitted path (it is marked visited when the
  cycle guard stops the path).
\<close>

theorem find_paths_partition_counterexample:
  "(''r1'', ''r0'') \<in> set (nx_edges (olc_graph (find_overlaps (fresh_olc 2) cyclic_reads)))
   \<and> find_paths (\<lambda>_. 0) (olc_graph (find_overlaps (fresh_olc 2) cyclic_reads))
       = [[''r0'', ''r1'']]
   \<and> (''r1'', ''r0'')
        \<notin> set (all_path_pairs
                 (find_paths (\<lambda>_. 0) (olc_graph (find_overlaps (fresh_olc 2) cyclic_reads))))
   \<and> guard_stopped (\<lambda>_. 0) (olc_graph (find_overlaps (fresh_olc 2) cyclic_reads))
       = [(''r1'', ''r0'')]"
  by code_simp

lemma find_paths_pairs_inv:
  "distinct (all_path_pairs (find_paths pick g))
   \<and> set (all_path_pairs (find_paths pick g)) \<subseteq> set (nx_edges g)
   \<and> snd (find_paths_run pick g) = set (nx_edges g)
   \<and> list_all (\<lambda>p. 2 \<le> length p) (find_paths pick g)"
proof (cases "nx_nodes g = []")
  case True
  then have "g = []" by (simp add: nx_nodes_def)
  then show ?thesis
    by (simp add: find_paths_def find_paths_run_def nx_nodes_def nx_edges_def all_path_pairs_def)
next
  case False
  let ?r0 = "from_starts g (start_nodes_of g) [] {}"
  have "paths_inv g [] {}" by (simp add: paths_inv_def all_path_pairs_def)
  then have "paths_inv g (fst ?r0) (snd ?r0)" by (rule from_starts_inv)
  from leftover_edges_inv [OF this, of pick]
  have "paths_inv g (fst (find_paths_run pick g)) (snd (find_paths_run pick g))
      \<and> set (nx_edges g) \<subseteq> snd (find_paths_run pick g)"
    using False by (simp add: find_paths_run_def Let_def)
  then show ?thesis
    unfolding paths_inv_def find_paths_def by auto
qed

subsection \<open>The edges the cycle guard stopped at\<close>

lemma from_starts_t_agree:
  "(fst (from_starts_t g ss paths visited_edges stopped),
    fst (snd (from_starts_t g ss paths visited_edges stopped)))
     = from_starts g ss paths visited_edges"
proof (induction ss arbitrary: paths visited_edges stopped)
  case Nil
  then show ?case by simp
next
  case (Cons start ss)
  let ?r = "build_greedy_paths_t g start paths visited_edges stopped None"
  have "build_greedy_paths g start paths visited_edges None = (fst ?r, fst (snd ?r))"
    by (simp add: build_greedy_paths_t_agree)
  with Cons.IH [of "fst ?r" "fst (snd ?r)" "snd (snd ?r)"] show ?case
    by (simp add: case_prod_beta)
qed

lemma leftover_edges_t_agree:
  "(fst (leftover_edges_t pick g paths visited_edges stopped),
    fst (snd (leftover_edges_t pick g paths visited_edges stopped)))
     = leftover_edges pick g paths visited_edges"
proof (induction pick g paths visited_edges stopped rule: leftover_edges_t.induct)
  case (1 pick g paths visited_edges stopped)
  let ?un = "filter (\<lambda>e. e \<notin> visited_edges) (remdups (nx_edges g))"
  show ?case
  proof (cases "?un = []")
    case True
    then show ?thesis
      by (simp add: leftover_edges_t.simps [of pick g paths visited_edges]
          leftover_edges.simps [of pick g paths visited_edges])
  next
    case False
    let ?e = "?un ! (pick ?un mod length ?un)"
    let ?r = "build_greedy_paths_t g (fst ?e) paths visited_edges stopped (Some ?e)"
    have b: "build_greedy_paths g (fst ?e) paths visited_edges (Some ?e) = (fst ?r, fst (snd ?r))"
      by (simp add: build_greedy_paths_t_agree)
    from "1.IH" [OF refl False refl refl] False b show ?thesis
      by (simp add: leftover_edges_t.simps [of pick g paths visited_edges]
          leftover_edges.simps [of pick g paths visited_edges] Let_def)
  qed
qed

lemma find_paths_traced_agree:
  "(fst (find_paths_traced pick g), fst (snd (find_paths_traced pick g))) = find_paths_run pick g"
proof (cases "nx_nodes g = []")
  case True
  then show ?thesis by (simp add: find_paths_traced_def find_paths_run_def)
next
  case False
  let ?r = "from_starts_t g (start_nodes_of g) [] {} []"
  have "from_starts g (start_nodes_of g) [] {} = (fst ?r, fst (snd ?r))"
    by (simp add: from_starts_t_agree)
  with False show ?thesis
    by (simp add: find_paths_traced_def find_paths_run_def Let_def leftover_edges_t_agree)
qed

lemma path_pairs_append_subset: "set (path_pairs a) \<subseteq> set (path_pairs (a @ b))"
proof (induction b rule: rev_induct)
  case Nil
  then show ?case by simp
next
  case (snoc x b)
  show ?case
  proof (cases "a @ b = []")
    case True
    then show ?thesis by (simp add: path_pairs_def)
  next
    case False
    have "path_pairs (a @ b @ [x]) = path_pairs (a @ b) @ [(last (a @ b), x)]"
      using path_pairs_snoc [OF False, of x] by simp
    with snoc show ?thesis by auto
  qed
qed

lemma stop_ok_none:
  assumes "set (path_pairs path) \<subseteq> visited_edges"
  shows "stop_ok path visited_edges (path, visited_edges, [])"
proof -
  have "visited_edges = visited_edges \<union> set (path_pairs path)" using assms by blast
  then show ?thesis unfolding stop_ok_def by simp
qed

lemma stop_ok_guard:
  assumes "set (path_pairs path) \<subseteq> visited_edges" "ne \<notin> visited_edges"
    "fst ne = last path" "snd ne \<in> set path"
  shows "stop_ok path visited_edges (path, insert ne visited_edges, [ne])"
proof -
  have 1: "insert ne visited_edges = visited_edges \<union> set (path_pairs path) \<union> set [ne]"
    using assms(1) by auto
  have 2: "set [ne] \<inter> (visited_edges \<union> set (path_pairs path)) = {}"
    using assms(1,2) by auto
  show ?thesis
    unfolding stop_ok_def prod.case
    using 1 2 assms(3,4) by simp
qed

lemma cover_absorb: "x \<in> A \<Longrightarrow> insert x V \<union> A \<union> S = V \<union> A \<union> S"
  by blast

lemma fresh_shrink: "(A - insert x P) \<inter> insert x V = {} \<Longrightarrow> x \<notin> V \<Longrightarrow> (A - P) \<inter> V = {}"
  by blast

lemma disjoint_shrink: "S \<inter> (insert x V \<union> A) = {} \<Longrightarrow> S \<inter> (V \<union> A) = {}"
  by blast

lemma stop_ok_step:
  assumes ne: "ne \<notin> visited_edges"
    and pp: "path_pairs (path @ [n]) = path_pairs path @ [ne]"
    and ok: "stop_ok (path @ [n]) (insert ne visited_edges) r"
  shows "stop_ok path visited_edges r"
proof -
  obtain p v st where r: "r = (p, v, st)" by (cases r)
  have pp': "set (path_pairs (path @ [n])) = insert ne (set (path_pairs path))"
    unfolding pp by simp
  from ok have v: "v = insert ne visited_edges \<union> set (path_pairs p) \<union> set st"
    and d: "set st \<inter> (insert ne visited_edges \<union> set (path_pairs p)) = {}"
    and n: "(set (path_pairs p) - insert ne (set (path_pairs path))) \<inter> insert ne visited_edges = {}"
    and ds: "distinct st"
    and la: "list_all (\<lambda>e. fst e = last p \<and> snd e \<in> set p) st"
    and tk: "take (Suc (length path)) p = path @ [n]"
    unfolding stop_ok_def r prod.case pp' by simp_all
  from tk have p: "p = (path @ [n]) @ drop (Suc (length path)) p"
    by (metis append_take_drop_id)
  have "set (path_pairs (path @ [n])) \<subseteq> set (path_pairs ((path @ [n]) @ drop (Suc (length path)) p))"
    by (rule path_pairs_append_subset)
  then have "set (path_pairs (path @ [n])) \<subseteq> set (path_pairs p)"
    using p by simp
  then have nein: "ne \<in> set (path_pairs p)" unfolding pp' by simp
  have 1: "v = visited_edges \<union> set (path_pairs p) \<union> set st"
    unfolding v by (rule cover_absorb [OF nein])
  have 2: "set st \<inter> (visited_edges \<union> set (path_pairs p)) = {}"
    using d by (rule disjoint_shrink)
  have 3: "(set (path_pairs p) - set (path_pairs path)) \<inter> visited_edges = {}"
    using n ne by (rule fresh_shrink)
  have "take (length path) (take (Suc (length path)) p) = take (length path) (path @ [n])"
    using tk by simp
  then have 4: "take (length path) p = path"
    by (simp add: min_def)
  show ?thesis
    unfolding stop_ok_def r prod.case
    using 1 2 3 4 ds la by (intro conjI)
qed

lemma extend_path_t_stop:
  assumes "path \<noteq> []" "last path = current" "set (path_pairs path) \<subseteq> visited_edges"
  shows "stop_ok path visited_edges (extend_path_t g current path visited_edges)"
  using assms
proof (induction g current path visited_edges rule: extend_path_t.induct)
  case (1 g current path visited_edges)
  show ?case
  proof (cases "filter (\<lambda>e. e \<notin> visited_edges) (nx_out_edges g current)")
    case Nil
    then have "extend_path_t g current path visited_edges = (path, visited_edges, [])"
      by (simp add: extend_path_t.simps [of g current])
    with stop_ok_none [OF "1.prems"(3)] show ?thesis by simp
  next
    case (Cons e es)
    let ?ne = "py_max_key (edge_key g) e es"
    let ?v1 = "insert ?ne visited_edges"
    from greedy_choice [OF Cons, of "edge_key g"]
    have ne: "?ne \<in> set (nx_out_edges g current)" "?ne \<notin> visited_edges" by simp_all
    have nef: "fst ?ne = current" using nx_out_edges_fst [OF ne(1)] .
    show ?thesis
    proof (cases "snd ?ne \<in> set path")
      case True
      with Cons have "extend_path_t g current path visited_edges = (path, ?v1, [?ne])"
        by (simp add: extend_path_t.simps [of g current] Let_def)
      moreover have "stop_ok path visited_edges (path, ?v1, [?ne])"
        using "1.prems"(2,3) ne(2) nef True by (intro stop_ok_guard) simp_all
      ultimately show ?thesis by simp
    next
      case False
      let ?p1 = "path @ [snd ?ne]"
      let ?r = "extend_path_t g (snd ?ne) ?p1 ?v1"
      have eq: "extend_path_t g current path visited_edges = ?r"
        using Cons False by (simp add: extend_path_t.simps [of g current] Let_def)
      have "?ne = (last path, snd ?ne)" using nef "1.prems"(2) by (cases ?ne) simp
      then have pp: "path_pairs ?p1 = path_pairs path @ [?ne]"
        using path_pairs_snoc [OF "1.prems"(1), of "snd ?ne"] by simp
      have a1: "?p1 \<noteq> []" and a2: "last ?p1 = snd ?ne" by simp_all
      have a3: "set (path_pairs ?p1) \<subseteq> ?v1"
        using "1.prems"(3) unfolding pp by auto
      have "stop_ok ?p1 ?v1 ?r"
        by (rule "1.IH" [OF Cons refl refl refl False a1 a2 a3])
      from stop_ok_step [OF ne(2) pp this] show ?thesis unfolding eq .
    qed
  qed
qed


lemma closes_cycle_mono: "closes_cycle paths e \<Longrightarrow> closes_cycle (paths @ ps) e"
  by (auto simp: closes_cycle_def list_ex_iff)

lemma take_prefix_pairs:
  assumes "take (length p0) p = p0"
  shows "set (path_pairs p0) \<subseteq> set (path_pairs p)"
proof -
  have "p = p0 @ drop (length p0) p" using assms by (metis append_take_drop_id)
  moreover have "set (path_pairs p0) \<subseteq> set (path_pairs (p0 @ drop (length p0) p))"
    by (rule path_pairs_append_subset)
  ultimately show ?thesis by simp
qed

lemma stops_inv_emit:
  assumes inv: "stops_inv paths visited_edges stopped"
    and v: "v = visited_edges \<union> set (path_pairs p) \<union> set st"
    and d1: "set st \<inter> visited_edges = {}" and d2: "set st \<inter> set (path_pairs p) = {}"
    and d3: "set (path_pairs p) \<inter> visited_edges = {}"
    and ds: "distinct st"
    and la: "list_all (\<lambda>e. fst e = last p \<and> snd e \<in> set p) st"
  shows "stops_inv (paths @ [p]) v (stopped @ st)"
proof -
  from inv have i1: "visited_edges = set (all_path_pairs paths) \<union> set stopped"
    and i2: "distinct stopped" and i3: "set stopped \<inter> set (all_path_pairs paths) = {}"
    and i4: "list_all (closes_cycle paths) stopped"
    by (simp_all add: stops_inv_def)
  have ap: "set (all_path_pairs (paths @ [p])) = set (all_path_pairs paths) \<union> set (path_pairs p)"
    by (simp add: all_path_pairs_def)
  have 1: "v = set (all_path_pairs (paths @ [p])) \<union> set (stopped @ st)"
    unfolding ap v i1 by auto
  have 2: "distinct (stopped @ st)"
    using i2 ds d1 i1 by auto
  have 3: "set (stopped @ st) \<inter> set (all_path_pairs (paths @ [p])) = {}"
    unfolding ap using i3 d1 d2 d3 i1 by auto
  have "closes_cycle (paths @ [p]) e" if "e \<in> set st" for e
    using la that by (auto simp: closes_cycle_def list_all_iff)
  moreover have "closes_cycle (paths @ [p]) e" if "e \<in> set stopped" for e
    using i4 that closes_cycle_mono [of paths e "[p]"] by (auto simp: list_all_iff)
  ultimately have 4: "list_all (closes_cycle (paths @ [p])) (stopped @ st)"
    by (auto simp: list_all_iff)
  from 1 2 3 4 show ?thesis unfolding stops_inv_def by (intro conjI)
qed

lemma stops_inv_single:
  assumes inv: "stops_inv paths visited_edges stopped"
    and v: "v = visited_edges \<union> set st"
    and d1: "set st \<inter> visited_edges = {}"
    and ds: "distinct st"
    and la: "list_all (\<lambda>e. fst e = snd e) st"
  shows "stops_inv paths v (stopped @ st)"
proof -
  from inv have i1: "visited_edges = set (all_path_pairs paths) \<union> set stopped"
    and i2: "distinct stopped" and i3: "set stopped \<inter> set (all_path_pairs paths) = {}"
    and i4: "list_all (closes_cycle paths) stopped"
    by (simp_all add: stops_inv_def)
  have 1: "v = set (all_path_pairs paths) \<union> set (stopped @ st)"
    unfolding v i1 by auto
  have 2: "distinct (stopped @ st)"
    using i2 ds d1 i1 by auto
  have 3: "set (stopped @ st) \<inter> set (all_path_pairs paths) = {}"
    using i3 d1 i1 by auto
  have 4: "list_all (closes_cycle paths) (stopped @ st)"
    using i4 la by (auto simp: list_all_iff closes_cycle_def)
  from 1 2 3 4 show ?thesis unfolding stops_inv_def by (intro conjI)
qed


lemma build_greedy_paths_t_stops:
  assumes inv: "stops_inv paths visited_edges stopped"
    and se: "start_edge = None \<or> (\<exists>e. start_edge = Some e \<and> e \<notin> visited_edges)"
  shows "stops_inv (fst (build_greedy_paths_t g start paths visited_edges stopped start_edge))
           (fst (snd (build_greedy_paths_t g start paths visited_edges stopped start_edge)))
           (snd (snd (build_greedy_paths_t g start paths visited_edges stopped start_edge)))"
proof -
  define init where "init =
    (case start_edge of
       None \<Rightarrow> (start, [start], visited_edges)
     | Some (u, v) \<Rightarrow>
         if u = start then (v, [start, v], insert (u, v) visited_edges)
         else (start, [start], visited_edges))"
  obtain c0 p0 v0 where i: "init = (c0, p0, v0)" by (cases init)
  have pre: "p0 \<noteq> [] \<and> last p0 = c0 \<and> v0 = visited_edges \<union> set (path_pairs p0)
      \<and> set (path_pairs p0) \<inter> visited_edges = {} \<and> (p0 = [start] \<or> length p0 = 2)"
    using se i unfolding init_def
    by (auto split: option.splits prod.splits if_splits)
  obtain p v st where r: "extend_path_t g c0 p0 v0 = (p, v, st)"
    by (cases "extend_path_t g c0 p0 v0")
  have bg: "build_greedy_paths_t g start paths visited_edges stopped start_edge
          = (if length p > 1 then paths @ [p] else paths, v, stopped @ st)"
    using i r unfolding init_def build_greedy_paths_t_def by simp
  have "stop_ok p0 v0 (extend_path_t g c0 p0 v0)"
    using pre by (intro extend_path_t_stop) auto
  then have ok: "v = v0 \<union> set (path_pairs p) \<union> set st"
    "set st \<inter> (v0 \<union> set (path_pairs p)) = {}"
    "(set (path_pairs p) - set (path_pairs p0)) \<inter> v0 = {}"
    "distinct st" "list_all (\<lambda>e. fst e = last p \<and> snd e \<in> set p) st"
    "take (length p0) p = p0"
    unfolding r stop_ok_def prod.case by simp_all
  have sub: "set (path_pairs p0) \<subseteq> set (path_pairs p)"
    using ok(6) by (rule take_prefix_pairs)
  have v0: "v0 = visited_edges \<union> set (path_pairs p0)" using pre by simp
  have v: "v = visited_edges \<union> set (path_pairs p) \<union> set st"
    unfolding ok(1) v0 using sub by auto
  have d1: "set st \<inter> visited_edges = {}" using ok(2) unfolding v0 by auto
  have d2: "set st \<inter> set (path_pairs p) = {}" using ok(2) by auto
  have d3: "set (path_pairs p) \<inter> visited_edges = {}"
    using ok(3) pre unfolding v0 by auto
  show ?thesis
  proof (cases "length p > 1")
    case True
    with stops_inv_emit [OF inv v d1 d2 d3 ok(4,5)] show ?thesis unfolding bg by simp
  next
    case False
    have "length (take (length p0) p) = length p0" using ok(6) by simp
    then have "length p0 \<le> length p" by simp
    with False pre have p0: "p0 = [start]" by auto
    have "length p = 1" using False \<open>length p0 \<le> length p\<close> p0 by simp
    with ok(6) p0 have p: "p = [start]" by (cases p) auto
    have v': "v = visited_edges \<union> set st" unfolding v p by simp
    have la: "list_all (\<lambda>e. fst e = snd e) st"
      using ok(5) unfolding p by (auto simp: list_all_iff)
    from stops_inv_single [OF inv v' d1 ok(4) la] False show ?thesis unfolding bg by simp
  qed
qed

lemma from_starts_t_stops:
  "stops_inv paths visited_edges stopped \<Longrightarrow>
     stops_inv (fst (from_starts_t g ss paths visited_edges stopped))
       (fst (snd (from_starts_t g ss paths visited_edges stopped)))
       (snd (snd (from_starts_t g ss paths visited_edges stopped)))"
proof (induction ss arbitrary: paths visited_edges stopped)
  case Nil
  then show ?case by simp
next
  case (Cons start ss)
  from Cons.IH [OF build_greedy_paths_t_stops [OF Cons.prems, of None g start]]
  show ?case by (simp add: case_prod_beta)
qed

lemma leftover_edges_t_stops:
  "stops_inv paths visited_edges stopped \<Longrightarrow>
     stops_inv (fst (leftover_edges_t pick g paths visited_edges stopped))
       (fst (snd (leftover_edges_t pick g paths visited_edges stopped)))
       (snd (snd (leftover_edges_t pick g paths visited_edges stopped)))"
proof (induction pick g paths visited_edges stopped rule: leftover_edges_t.induct)
  case (1 pick g paths visited_edges stopped)
  let ?un = "filter (\<lambda>e. e \<notin> visited_edges) (remdups (nx_edges g))"
  show ?case
  proof (cases "?un = []")
    case True
    then have "leftover_edges_t pick g paths visited_edges stopped = (paths, visited_edges, stopped)"
      by (simp add: leftover_edges_t.simps [of pick g paths visited_edges])
    with "1.prems" show ?thesis by simp
  next
    case False
    let ?e = "?un ! (pick ?un mod length ?un)"
    let ?r = "build_greedy_paths_t g (fst ?e) paths visited_edges stopped (Some ?e)"
    have "?e \<in> set ?un" using False by (intro nth_mem) simp
    then have e: "?e \<notin> visited_edges" by simp
    have inv: "stops_inv (fst ?r) (fst (snd ?r)) (snd (snd ?r))"
      using e by (intro build_greedy_paths_t_stops [OF "1.prems"]) simp
    have eq: "leftover_edges_t pick g paths visited_edges stopped
              = leftover_edges_t pick g (fst ?r) (fst (snd ?r)) (snd (snd ?r))"
      using False by (simp add: leftover_edges_t.simps [of pick g paths visited_edges] Let_def)
    from "1.IH" [OF refl False refl refl inv] show ?thesis unfolding eq .
  qed
qed

lemma find_paths_traced_stops:
  "stops_inv (fst (find_paths_traced pick g)) (fst (snd (find_paths_traced pick g)))
     (guard_stopped pick g)"
proof (cases "nx_nodes g = []")
  case True
  then show ?thesis
    by (simp add: find_paths_traced_def guard_stopped_def stops_inv_def all_path_pairs_def)
next
  case False
  let ?r = "from_starts_t g (start_nodes_of g) [] {} []"
  have "stops_inv [] {} []" by (simp add: stops_inv_def all_path_pairs_def)
  then have "stops_inv (fst ?r) (fst (snd ?r)) (snd (snd ?r))" by (rule from_starts_t_stops)
  from leftover_edges_t_stops [OF this, of pick g] False show ?thesis
    by (simp add: find_paths_traced_def guard_stopped_def Let_def)
qed

text \<open>
  Claim C1, amended. For every graph and every choice of leftover edges, the emitted
  paths and the edges at which the cycle guard stopped a path partition the edge set
  exactly: every edge of the graph is a consecutive node pair of an emitted path or an
  edge the guard stopped at, no edge is both, none occurs twice among the pairs of all
  emitted paths, and none is left out. An edge the guard stopped at has its target on the
  path that ends at its source. Every emitted path has at least two nodes, and the set of
  visited edges that \<^verbatim>\<open>find_paths\<close> ends with is the edge set.
\<close>

theorem find_paths_exact_cover:
  "fst (find_paths_traced pick g) = find_paths pick g
   \<and> distinct (all_path_pairs (find_paths pick g) @ guard_stopped pick g)
   \<and> set (all_path_pairs (find_paths pick g)) \<union> set (guard_stopped pick g) = set (nx_edges g)
   \<and> list_all (closes_cycle (find_paths pick g)) (guard_stopped pick g)
   \<and> list_all (\<lambda>p. 2 \<le> length p) (find_paths pick g)
   \<and> snd (find_paths_run pick g) = set (nx_edges g)"
proof -
  have ag: "fst (find_paths_traced pick g) = find_paths pick g"
    "fst (snd (find_paths_traced pick g)) = snd (find_paths_run pick g)"
    using find_paths_traced_agree [of pick g, symmetric] by (simp_all add: find_paths_def)
  from find_paths_traced_stops [of pick g]
  have s: "snd (find_paths_run pick g)
            = set (all_path_pairs (find_paths pick g)) \<union> set (guard_stopped pick g)"
    "distinct (guard_stopped pick g)"
    "set (guard_stopped pick g) \<inter> set (all_path_pairs (find_paths pick g)) = {}"
    "list_all (closes_cycle (find_paths pick g)) (guard_stopped pick g)"
    unfolding stops_inv_def ag by simp_all
  have old: "distinct (all_path_pairs (find_paths pick g))"
    "snd (find_paths_run pick g) = set (nx_edges g)"
    "list_all (\<lambda>p. 2 \<le> length p) (find_paths pick g)"
    using find_paths_pairs_inv [of pick g] by simp_all
  have "distinct (all_path_pairs (find_paths pick g) @ guard_stopped pick g)"
    using old(1) s(2,3) by auto
  with ag(1) s old show ?thesis by simp
qed

end
